theory Spec2Isabelle
  imports Main
begin

section \<open>Python strings\<close>

text \<open>
  A Python \<^verbatim>\<open>str\<close> is modelled as a \<^typ>\<open>string\<close>, a character being a code point below
  256. The texts the passes inspect come out of \<^verbatim>\<open>json.dumps\<close> with its default
  \<^verbatim>\<open>ensure_ascii=True\<close>: they are ASCII, and their UTF-8 encoding has as many bytes as they
  have characters. \<^verbatim>\<open>lower\<close>, \<^verbatim>\<open>strip\<close> and the classes of the pattern are modelled on the
  ASCII characters; a character outside ASCII is left as it is and belongs to no class.
\<close>

text \<open>\<^verbatim>\<open>s.startswith(p)\<close>.\<close>

fun startswith :: "string \<Rightarrow> string \<Rightarrow> bool" where
  "startswith s [] = True"
| "startswith [] (p # ps) = False"
| "startswith (c # s) (p # ps) = (c = p \<and> startswith s ps)"

text \<open>\<^verbatim>\<open>sub in s\<close> for two strings: \<open>sub\<close> occurs in \<open>s\<close> as a contiguous run.\<close>

fun contains :: "string \<Rightarrow> string \<Rightarrow> bool" where
  "contains [] sub = (sub = [])"
| "contains (c # s) sub = (startswith (c # s) sub \<or> contains s sub)"

definition is_upper :: "char \<Rightarrow> bool" where
  "is_upper c = (65 \<le> (of_char c :: nat) \<and> (of_char c :: nat) \<le> 90)"

definition is_lower :: "char \<Rightarrow> bool" where
  "is_lower c = (97 \<le> (of_char c :: nat) \<and> (of_char c :: nat) \<le> 122)"

definition is_digit :: "char \<Rightarrow> bool" where
  "is_digit c = (48 \<le> (of_char c :: nat) \<and> (of_char c :: nat) \<le> 57)"

definition lower_char :: "char \<Rightarrow> char" where
  "lower_char c = (if is_upper c then char_of ((of_char c :: nat) + 32) else c)"

text \<open>\<^verbatim>\<open>s.lower()\<close>.\<close>

definition py_lower :: "string \<Rightarrow> string" where
  "py_lower s = map lower_char s"

text \<open>The ASCII characters for which \<^verbatim>\<open>str.isspace\<close> holds: 9 to 13, 28 to 32.\<close>

definition is_space :: "char \<Rightarrow> bool" where
  "is_space c = ((9 \<le> (of_char c :: nat) \<and> (of_char c :: nat) \<le> 13)
                 \<or> (28 \<le> (of_char c :: nat) \<and> (of_char c :: nat) \<le> 32))"

text \<open>\<^verbatim>\<open>s.strip()\<close>.\<close>

definition py_strip :: "string \<Rightarrow> string" where
  "py_strip s = rev (dropWhile is_space (rev (dropWhile is_space s)))"

text \<open>\<^verbatim>\<open>str(n)\<close> for a natural number and for an integer.\<close>

definition digit_char :: "nat \<Rightarrow> char" where
  "digit_char d = char_of (48 + d)"

fun str_nat :: "nat \<Rightarrow> string" where
  "str_nat n = (if n < 10 then [digit_char n] else str_nat (n div 10) @ [digit_char (n mod 10)])"

definition str_int :: "int \<Rightarrow> string" where
  "str_int i = (if i < 0 then CHR ''-'' # str_nat (nat (- i)) else str_nat (nat i))"

text \<open>\<^verbatim>\<open>sep.join(xs)\<close>.\<close>

fun join :: "string \<Rightarrow> string list \<Rightarrow> string" where
  "join sep [] = []"
| "join sep [x] = x"
| "join sep (x # y # ys) = x @ sep @ join sep (y # ys)"

section \<open>JSON values and \<^verbatim>\<open>json.dumps\<close>\<close>

text \<open>
  The payloads are the Python objects \<^verbatim>\<open>response.json()\<close> yields: \<^verbatim>\<open>None\<close>, booleans,
  integers, strings, lists and dictionaries with string keys (kept as association lists in key
  order). Floating-point numbers are left out.
\<close>

datatype json =
    JNull
  | JBool bool
  | JInt int
  | JStr string
  | JArr "json list"
  | JObj "(string \<times> json) list"

definition hex_char :: "nat \<Rightarrow> char" where
  "hex_char d = (if d < 10 then char_of (48 + d) else char_of (87 + d))"

text \<open>
  \<^verbatim>\<open>json.encoder.py_encode_basestring_ascii\<close>: the quote and the backslash are escaped,
  the five short escapes are used, and every other character outside \<^verbatim>\<open>' '..'~'\<close> becomes
  \<^verbatim>\<open>\u00XX\<close>.
\<close>

definition escape_char :: "char \<Rightarrow> string" where
  "escape_char c =
     (let n = (of_char c :: nat) in
      if n = 34 then [CHR 0x5C, CHR 0x22]
      else if n = 92 then [CHR 0x5C, CHR 0x5C]
      else if n = 8 then [CHR 0x5C, CHR ''b'']
      else if n = 12 then [CHR 0x5C, CHR ''f'']
      else if n = 10 then [CHR 0x5C, CHR ''n'']
      else if n = 13 then [CHR 0x5C, CHR ''r'']
      else if n = 9 then [CHR 0x5C, CHR ''t'']
      else if 32 \<le> n \<and> n \<le> 126 then [c]
      else [CHR 0x5C, CHR ''u'', CHR ''0'', CHR ''0'', hex_char (n div 16), hex_char (n mod 16)])"

definition encode_str :: "string \<Rightarrow> string" where
  "encode_str s = CHR 0x22 # concat (map escape_char s) @ [CHR 0x22]"

text \<open>\<^verbatim>\<open>json.dumps(data)\<close> with the default separators \<^verbatim>\<open>", "\<close> and \<^verbatim>\<open>": "\<close>.\<close>

fun json_dumps :: "json \<Rightarrow> string" where
  "json_dumps JNull = ''null''"
| "json_dumps (JBool b) = (if b then ''true'' else ''false'')"
| "json_dumps (JInt i) = str_int i"
| "json_dumps (JStr s) = encode_str s"
| "json_dumps (JArr xs) = ''['' @ join '', '' (map json_dumps xs) @ '']''"
| "json_dumps (JObj kvs) =
     ''{'' @ join '', '' (map (\<lambda>kv. encode_str (fst kv) @ '': '' @ json_dumps (snd kv)) kvs) @ ''}''"

section \<open>Email extraction (\<^verbatim>\<open>worker.py\<close>, \<^verbatim>\<open>app.py\<close>, \<^verbatim>\<open>stage3_server.py\<close>)\<close>

text \<open>
  The three copies of \<^verbatim>\<open>extract_emails_from_text\<close> use the same pattern
  \<^verbatim>\<open>\b[A-Za-z0-9._%+-]+@[A-Za-z0-9.-]+\.[A-Z|a-z]{2,}\b\<close>.
  The matcher below follows the backtracking search of \<^verbatim>\<open>re.findall\<close> for this pattern:
  leftmost start first, every repetition greedy, shorter repetitions tried on failure.
\<close>

definition is_alpha :: "char \<Rightarrow> bool" where
  "is_alpha c = (is_upper c \<or> is_lower c)"

text \<open>The class \<^verbatim>\<open>[A-Za-z0-9._%+-]\<close>.\<close>

definition is_local :: "char \<Rightarrow> bool" where
  "is_local c = (is_alpha c \<or> is_digit c \<or> c \<in> set ''._%+-'')"

text \<open>The class \<^verbatim>\<open>[A-Za-z0-9.-]\<close>.\<close>

definition is_domain :: "char \<Rightarrow> bool" where
  "is_domain c = (is_alpha c \<or> is_digit c \<or> c \<in> set ''.-'')"

text \<open>The class \<^verbatim>\<open>[A-Z|a-z]\<close>: the bar is a member of the class.\<close>

definition is_tld :: "char \<Rightarrow> bool" where
  "is_tld c = (is_alpha c \<or> c = CHR ''|'')"

text \<open>\<^verbatim>\<open>\w\<close> on ASCII text; the position before the first and after the last character counts
  as a non-word character.\<close>

definition is_word :: "char option \<Rightarrow> bool" where
  "is_word co = (case co of None \<Rightarrow> False
                 | Some c \<Rightarrow> is_alpha c \<or> is_digit c \<or> c = CHR ''_'')"

text \<open>\<^verbatim>\<open>\b\<close> between the character \<open>prev\<close> and the character \<open>nxt\<close>.\<close>

definition word_boundary :: "char option \<Rightarrow> char option \<Rightarrow> bool" where
  "word_boundary prev nxt = (is_word prev \<noteq> is_word nxt)"

definition char_at :: "string \<Rightarrow> nat \<Rightarrow> char option" where
  "char_at s i = (if i < length s then Some (s ! i) else None)"

text \<open>
  \<^verbatim>\<open>[A-Z|a-z]{2,}\b\<close> at the start of \<open>r\<close>: the longest length \<open>t\<close> with \<open>2 \<le> t \<le> n\<close> that
  ends at a word boundary, where \<open>n\<close> is the length of the run of class characters.
\<close>

fun tld_end :: "string \<Rightarrow> nat \<Rightarrow> nat option" where
  "tld_end r 0 = None"
| "tld_end r (Suc t) =
     (if Suc t < 2 then None
      else if word_boundary (char_at r t) (char_at r (Suc t)) then Some (Suc t)
      else tld_end r t)"

text \<open>
  \<^verbatim>\<open>[A-Za-z0-9.-]+\.[A-Z|a-z]{2,}\b\<close> at the start of \<open>r\<close>: the domain takes \<open>k\<close> characters,
  from the whole run downwards; the result is the length of the match.
\<close>

fun domain_end :: "string \<Rightarrow> nat \<Rightarrow> nat option" where
  "domain_end r 0 = None"
| "domain_end r (Suc k) =
     (if char_at r (Suc k) = Some (CHR ''.'') then
        (case tld_end (drop (Suc (Suc k)) r) (length (takeWhile is_tld (drop (Suc (Suc k)) r))) of
           Some t \<Rightarrow> Some (Suc (Suc k) + t)
         | None \<Rightarrow> domain_end r k)
      else domain_end r k)"

text \<open>The whole pattern at the start of \<open>s\<close>, with \<open>prev\<close> the character before it: the length
  of the match.\<close>

definition match_here :: "char option \<Rightarrow> string \<Rightarrow> nat option" where
  "match_here prev s =
     (if \<not> word_boundary prev (char_at s 0) then None
      else let l = length (takeWhile is_local s) in
        if l = 0 then None
        else if char_at s l \<noteq> Some (CHR ''@'') then None
        else (case domain_end (drop (Suc l) s) (length (takeWhile is_domain (drop (Suc l) s))) of
                None \<Rightarrow> None
              | Some d \<Rightarrow> Some (Suc l + d)))"

lemma match_here_pos: "match_here prev s = Some n \<Longrightarrow> 0 < n"
  by (auto simp: match_here_def Let_def split: if_splits option.splits)

text \<open>\<^verbatim>\<open>re.findall(pattern, text)\<close>: the non-overlapping matches from left to right.\<close>

function findall :: "char option \<Rightarrow> string \<Rightarrow> string list" where
  "findall prev [] = []"
| "findall prev (c # s) =
     (case match_here prev (c # s) of
        Some n \<Rightarrow> take n (c # s) # findall (char_at (c # s) (n - 1)) (drop n (c # s))
      | None \<Rightarrow> findall (Some c) s)"
  by pat_completeness auto
termination
  by (relation "measure (\<lambda>(prev, s). length s)") (auto dest: match_here_pos)

text \<open>\<^verbatim>\<open>list(set(emails))\<close>: the distinct matches. Python leaves the order of the list open;
  the model keeps one order, and nothing below depends on it.\<close>

definition extract_emails_from_text :: "string \<Rightarrow> string list" where
  "extract_emails_from_text text = remdups (findall None text)"

section \<open>Query deduplication (\<^verbatim>\<open>app.py\<close>)\<close>





section \<open>The external collaborators\<close>

text \<open>
  The persistent store holds three tables. Rows are kept in table order, which is the order the
  store returns them in. The pauses between items (\<^verbatim>\<open>time.sleep\<close>) and the log lines of the
  passes are left out.
\<close>

record snapshot_row =
  snapshot_id :: string
  query :: "string list"
  processed :: bool

record response_row =
  r_snapshot_id :: string
  response :: json
  is_email_extracted :: bool

record store =
  snapshot_table :: "snapshot_row list"
  response_table :: "response_row list"
  email_table :: "string list"

text \<open>The calls the clients make on the store.\<close>

datatype db_op =
    SelectUnprocessed
  | SelectUnextracted
  | InsertSnapshot string
  | UpdateProcessed string
  | InsertResponse string
  | UpdateExtracted string
  | InsertEmail string

text \<open>What \<^verbatim>\<open>requests.get\<close> followed by \<^verbatim>\<open>raise_for_status\<close> and \<^verbatim>\<open>response.json()\<close> does.\<close>

datatype http_result =
    HttpJson json
  | HttpRequestException string
  | HttpJSONDecodeError string

text \<open>What \<^verbatim>\<open>requests.post\<close> followed by \<^verbatim>\<open>raise_for_status\<close> and \<^verbatim>\<open>response.json()\<close> does;
  the service answers with a dictionary of strings.\<close>

datatype post_result =
    PostJson "(string \<times> string) list"
  | PostRequestException string
  | PostJSONDecodeError string

text \<open>
  The environment of one pass: the collection service's answers, the faults of the store
  (\<open>db_fault env op = Some msg\<close>: the call \<open>op\<close> raises an exception whose text is \<open>msg\<close>,
  each time it is made during the pass), and the payloads on which \<^verbatim>\<open>json.dumps\<close> itself
  raises (a \<^verbatim>\<open>RecursionError\<close> on a payload nested deeper than the interpreter allows).
\<close>

record env =
  http_get :: "string \<Rightarrow> http_result"
  http_post :: "string list \<Rightarrow> post_result"
  db_fault :: "db_op \<Rightarrow> string option"
  dumps_raises :: "json \<Rightarrow> bool"

datatype py_exception = ValueError | RecursionError

text \<open>The text of the exception the store raises when an insert violates a uniqueness
  constraint (PostgreSQL error 23505).\<close>

definition unique_violation :: string where
  "unique_violation = ''duplicate key value violates unique constraint''"

section \<open>\<^verbatim>\<open>SupabaseClient\<close> (\<^verbatim>\<open>email_scraper.py\<close>)\<close>

text \<open>The \<^verbatim>\<open>except\<close> branch shared by \<^verbatim>\<open>save_email\<close> and \<^verbatim>\<open>save_response\<close>.\<close>

definition error_type :: "string \<Rightarrow> string" where
  "error_type error_str =
     (if contains (py_lower error_str) ''duplicate'' \<or> contains (py_lower error_str) ''unique''
      then ''duplicate'' else ''error'')"

definition save_snapshot :: "env \<Rightarrow> store \<Rightarrow> string \<Rightarrow> string list \<Rightarrow> bool \<times> store" where
  "save_snapshot e st sid queries =
     (case db_fault e (InsertSnapshot sid) of
        Some msg \<Rightarrow> (False, st)
      | None \<Rightarrow> (True, st\<lparr>snapshot_table := snapshot_table st @
                  [\<lparr>snapshot_id = sid, query = queries, processed = False\<rparr>]\<rparr>))"

definition get_all_existing_queries :: "store \<Rightarrow> string list" where
  "get_all_existing_queries st =
     remdups (concat (map (\<lambda>row. map (\<lambda>q. py_strip (py_lower q)) (filter (\<lambda>q. q \<noteq> []) (query row)))
                          (snapshot_table st)))"

definition get_unprocessed_snapshots :: "env \<Rightarrow> store \<Rightarrow> snapshot_row list" where
  "get_unprocessed_snapshots e st =
     (case db_fault e SelectUnprocessed of
        Some msg \<Rightarrow> []
      | None \<Rightarrow> filter (\<lambda>r. \<not> processed r) (snapshot_table st))"

definition mark_as_processed :: "env \<Rightarrow> store \<Rightarrow> string \<Rightarrow> bool \<times> store" where
  "mark_as_processed e st sid =
     (case db_fault e (UpdateProcessed sid) of
        Some msg \<Rightarrow> (False, st)
      | None \<Rightarrow> (True, st\<lparr>snapshot_table :=
                  map (\<lambda>r. if snapshot_id r = sid then r\<lparr>processed := True\<rparr> else r)
                      (snapshot_table st)\<rparr>))"

text \<open>
  The two inserts below go to tables with a uniqueness constraint, on the address and on the
  snapshot identifier (the primary key of the response table): the store rejects a second row.
\<close>

definition save_email :: "env \<Rightarrow> store \<Rightarrow> string \<Rightarrow> (bool \<times> string) \<times> store" where
  "save_email e st email =
     (case db_fault e (InsertEmail email) of
        Some msg \<Rightarrow> ((False, error_type msg), st)
      | None \<Rightarrow>
          if email \<in> set (email_table st) then ((False, error_type unique_violation), st)
          else ((True, []), st\<lparr>email_table := email_table st @ [email]\<rparr>))"

definition save_response :: "env \<Rightarrow> store \<Rightarrow> string \<Rightarrow> json \<Rightarrow> (bool \<times> string) \<times> store" where
  "save_response e st sid response_data =
     (case db_fault e (InsertResponse sid) of
        Some msg \<Rightarrow> ((False, error_type msg), st)
      | None \<Rightarrow>
          if sid \<in> r_snapshot_id ` set (response_table st)
          then ((False, error_type unique_violation), st)
          else ((True, []), st\<lparr>response_table := response_table st @
                  [\<lparr>r_snapshot_id = sid, response = response_data,
                    is_email_extracted = False\<rparr>]\<rparr>))"

text \<open>\<^verbatim>\<open>.eq('is_email_extracted', False).range(offset, offset + limit - 1)\<close>.\<close>

definition get_unextracted_responses :: "env \<Rightarrow> store \<Rightarrow> nat \<Rightarrow> nat \<Rightarrow> response_row list" where
  "get_unextracted_responses e st limit offset =
     (case db_fault e SelectUnextracted of
        Some msg \<Rightarrow> []
      | None \<Rightarrow> take limit (drop offset (filter (\<lambda>r. \<not> is_email_extracted r) (response_table st))))"

definition mark_email_extracted :: "env \<Rightarrow> store \<Rightarrow> string \<Rightarrow> bool \<times> store" where
  "mark_email_extracted e st sid =
     (case db_fault e (UpdateExtracted sid) of
        Some msg \<Rightarrow> (False, st)
      | None \<Rightarrow> (True, st\<lparr>response_table :=
                  map (\<lambda>r. if r_snapshot_id r = sid then r\<lparr>is_email_extracted := True\<rparr> else r)
                      (response_table st)\<rparr>))"

section \<open>\<^verbatim>\<open>BrightdataClient\<close> (\<^verbatim>\<open>email_scraper.py\<close>)\<close>

text \<open>\<^verbatim>\<open>json.dumps\<close> as the clients call it: it raises where the environment says so.\<close>

definition dumps :: "env \<Rightarrow> json \<Rightarrow> py_exception + string" where
  "dumps e data = (if dumps_raises e data then Inl RecursionError else Inr (json_dumps data))"

text \<open>
  \<^verbatim>\<open>get_snapshot_data\<close> returns the tuple \<^verbatim>\<open>(data, is_running, is_valid, error_reason)\<close>;
  \<^verbatim>\<open>data = None\<close> is \<^term>\<open>JNull\<close>. An exception of \<^verbatim>\<open>json.dumps\<close> is caught by neither
  \<^verbatim>\<open>except\<close> clause and reaches the caller.
\<close>

definition running_marker_compact :: string where
  "running_marker_compact =
     [CHR 0x22] @ ''status'' @ [CHR 0x22] @ '':'' @ [CHR 0x22] @ ''running'' @ [CHR 0x22]"

definition running_marker_spaced :: string where
  "running_marker_spaced =
     [CHR 0x22] @ ''status'' @ [CHR 0x22] @ '': '' @ [CHR 0x22] @ ''running'' @ [CHR 0x22]"

definition get_snapshot_data ::
    "env \<Rightarrow> string \<Rightarrow> py_exception + (json \<times> bool \<times> bool \<times> string)" where
  "get_snapshot_data e sid =
     (case http_get e sid of
        HttpRequestException msg \<Rightarrow> Inr (JNull, False, False, ''Request error: '' @ msg)
      | HttpJSONDecodeError msg \<Rightarrow> Inr (JNull, False, False, ''JSON decode error: '' @ msg)
      | HttpJson data \<Rightarrow>
          (case dumps e data of
             Inl ex \<Rightarrow> Inl ex
           | Inr data_str \<Rightarrow>
               (let (is_valid, error_reason) =
                      (if contains data_str running_marker_compact
                          \<or> contains data_str running_marker_spaced
                       then (False, ''Status is running'')
                       else if contains (py_lower data_str) ''error''
                       then (let response_size = length data_str in
                             if response_size < 2000
                             then (False, ''Contains error and size < 2000 bytes (actual: ''
                                            @ str_nat response_size @ '')'')
                             else (True, []))
                       else (True, []));
                    is_running = (\<not> is_valid \<and> contains error_reason ''running'')
                in Inr (data, is_running, is_valid, error_reason))))"

definition send_request :: "env \<Rightarrow> string list \<Rightarrow> (string \<times> string) list option" where
  "send_request e keywords =
     (case http_post e keywords of
        PostJson result \<Rightarrow> Some result
      | PostRequestException msg \<Rightarrow> None
      | PostJSONDecodeError msg \<Rightarrow> None)"

section \<open>Batch submission: \<^verbatim>\<open>EmailScraperEngine.process_queries\<close> (\<^verbatim>\<open>email_scraper.py\<close>)\<close>

record submit_stats =
  total_queries :: nat
  successful_snapshots :: nat
  failed_batches :: nat
  total_batches :: nat
  submitted_ids :: "string list"
  snapshot_query_map :: "string \<rightharpoonup> string list"

text \<open>
  The body of \<^verbatim>\<open>for i in range(0, total_queries, batch_size)\<close> for one \<open>batch\<close>:
  \<^verbatim>\<open>response and 'snapshot_id' in response\<close> selects the first branch.
\<close>

fun submit_batch :: "env \<Rightarrow> store \<times> submit_stats \<Rightarrow> string list \<Rightarrow> store \<times> submit_stats" where
  "submit_batch e (st, s) batch =
     (let s1 = s\<lparr>total_batches := total_batches s + 1\<rparr>;
          resp = send_request e batch
      in case (case resp of
                 None \<Rightarrow> None
               | Some result \<Rightarrow> if result \<noteq> [] then map_of result ''snapshot_id'' else None) of
           Some sid \<Rightarrow>
             (let (saved, st') = save_snapshot e st sid batch in
              if saved
              then (st', s1\<lparr>successful_snapshots := successful_snapshots s1 + 1,
                            submitted_ids := submitted_ids s1 @ [sid],
                            snapshot_query_map := (snapshot_query_map s1)(sid \<mapsto> batch)\<rparr>)
              else (st', s1\<lparr>failed_batches := failed_batches s1 + 1\<rparr>))
         | None \<Rightarrow> (st, s1\<lparr>failed_batches := failed_batches s1 + 1\<rparr>))"

text \<open>
  The loop from the index \<open>i\<close> on, with \<^verbatim>\<open>batch = queries[i:i + batch_size]\<close>. The loop
  variable grows by \<open>batch_size\<close>, which \<^verbatim>\<open>range\<close> requires to be non-zero.
\<close>

function batch_loop ::
    "env \<Rightarrow> string list \<Rightarrow> nat \<Rightarrow> nat \<Rightarrow> store \<times> submit_stats \<Rightarrow> store \<times> submit_stats" where
  "batch_loop e queries batch_size i p =
     (if batch_size = 0 \<or> length queries \<le> i then p
      else batch_loop e queries batch_size (i + batch_size)
             (submit_batch e p (take batch_size (drop i queries))))"
  by pat_completeness auto
termination
  by (relation "measure (\<lambda>(e, queries, batch_size, i, p). length queries - i)") auto

text \<open>\<^verbatim>\<open>range(0, total_queries, 0)\<close> raises \<^verbatim>\<open>ValueError\<close>.\<close>

definition process_queries ::
    "env \<Rightarrow> store \<Rightarrow> string list \<Rightarrow> nat \<Rightarrow> py_exception + (submit_stats \<times> store)" where
  "process_queries e st queries batch_size =
     (if batch_size = 0 then Inl ValueError
      else
        let (st', s) = batch_loop e queries batch_size 0
              (st, \<lparr>total_queries = length queries, successful_snapshots = 0,
                    failed_batches = 0, total_batches = 0, submitted_ids = [],
                    snapshot_query_map = Map.empty\<rparr>)
        in Inr (s, st'))"

section \<open>Retrieval: \<^verbatim>\<open>process_stage2\<close> (\<^verbatim>\<open>worker.py\<close>)\<close>

record stage2_stats =
  s2_total :: nat
  s2_successful :: nat
  s2_failed :: nat
  s2_skipped :: nat

text \<open>The body of \<^verbatim>\<open>for snap in snapshots\<close>.\<close>

fun stage2_snap :: "env \<Rightarrow> snapshot_row \<Rightarrow> store \<times> stage2_stats \<Rightarrow> store \<times> stage2_stats" where
  "stage2_snap e snap (st, c) =
     (if snapshot_id snap = [] then (st, c\<lparr>s2_failed := s2_failed c + 1\<rparr>)
      else
        case get_snapshot_data e (snapshot_id snap) of
          Inl ex \<Rightarrow> (st, c\<lparr>s2_failed := s2_failed c + 1\<rparr>)
        | Inr (data, is_running, is_valid, error_reason) \<Rightarrow>
            if \<not> is_valid \<and> is_running
            then (st, c\<lparr>s2_skipped := s2_skipped c + 1\<rparr>)
            else if data = JNull
            then (st, c\<lparr>s2_failed := s2_failed c + 1\<rparr>)
            else
              let ((ok, err_type), st1) = save_response e st (snapshot_id snap) data in
              if ok
              then (snd (mark_as_processed e st1 (snapshot_id snap)),
                    c\<lparr>s2_successful := s2_successful c + 1\<rparr>)
              else if err_type = ''duplicate''
              then (snd (mark_as_processed e st1 (snapshot_id snap)),
                    c\<lparr>s2_skipped := s2_skipped c + 1\<rparr>)
              else (st1, c\<lparr>s2_failed := s2_failed c + 1\<rparr>))"

fun stage2_loop ::
    "env \<Rightarrow> snapshot_row list \<Rightarrow> store \<times> stage2_stats \<Rightarrow> store \<times> stage2_stats" where
  "stage2_loop e [] p = p"
| "stage2_loop e (snap # rest) p = stage2_loop e rest (stage2_snap e snap p)"

definition process_stage2 :: "env \<Rightarrow> store \<Rightarrow> stage2_stats \<times> store" where
  "process_stage2 e st =
     (let snapshots = get_unprocessed_snapshots e st;
          total = length snapshots
      in if total = 0
         then (\<lparr>s2_total = 0, s2_successful = 0, s2_failed = 0, s2_skipped = 0\<rparr>, st)
         else
           let (st', c) = stage2_loop e snapshots
                 (st, \<lparr>s2_total = total, s2_successful = 0, s2_failed = 0, s2_skipped = 0\<rparr>)
           in (c, st'))"

section \<open>Retrieval: \<^verbatim>\<open>process_unprocessed_snapshots\<close> (\<^verbatim>\<open>app.py\<close>)\<close>

record app_stage2_stats =
  a_total :: nat
  a_successful :: nat
  a_failed :: nat
  a_skipped :: nat
  a_db_errors :: nat
  a_duplicate_snapshots :: nat
  a_running_snapshots :: nat
  a_invalid_responses :: nat

text \<open>Python's truth value of a payload, as \<^verbatim>\<open>if data:\<close> tests it.\<close>

fun truthy :: "json \<Rightarrow> bool" where
  "truthy JNull = False"
| "truthy (JBool b) = b"
| "truthy (JInt i) = (i \<noteq> 0)"
| "truthy (JStr s) = (s \<noteq> [])"
| "truthy (JArr xs) = (xs \<noteq> [])"
| "truthy (JObj kvs) = (kvs \<noteq> [])"

text \<open>The body of \<^verbatim>\<open>for idx, snapshot_data in enumerate(snapshots)\<close>.\<close>

fun app_stage2_snap ::
    "env \<Rightarrow> snapshot_row \<Rightarrow> store \<times> app_stage2_stats \<Rightarrow> store \<times> app_stage2_stats" where
  "app_stage2_snap e snap (st, c) =
     (case get_snapshot_data e (snapshot_id snap) of
        Inl ex \<Rightarrow> (st, c\<lparr>a_failed := a_failed c + 1\<rparr>)
      | Inr (data, is_running, is_valid, error_reason) \<Rightarrow>
          if \<not> is_valid
          then (st, c\<lparr>a_invalid_responses := a_invalid_responses c + 1,
                      a_running_snapshots :=
                        (if is_running then a_running_snapshots c + 1
                         else a_running_snapshots c)\<rparr>)
          else if truthy data
          then
            let ((save_success, err_type), st1) = save_response e st (snapshot_id snap) data in
            if save_success
            then
              let (marked, st2) = mark_as_processed e st1 (snapshot_id snap) in
              if marked
              then (st2, c\<lparr>a_successful := a_successful c + 1\<rparr>)
              else (st2, c\<lparr>a_failed := a_failed c + 1, a_db_errors := a_db_errors c + 1\<rparr>)
            else if err_type = ''duplicate''
            then (snd (mark_as_processed e st1 (snapshot_id snap)),
                  c\<lparr>a_duplicate_snapshots := a_duplicate_snapshots c + 1\<rparr>)
            else (st1, c\<lparr>a_failed := a_failed c + 1, a_db_errors := a_db_errors c + 1\<rparr>)
          else (st, c\<lparr>a_skipped := a_skipped c + 1\<rparr>))"

fun app_stage2_loop ::
    "env \<Rightarrow> snapshot_row list \<Rightarrow> store \<times> app_stage2_stats \<Rightarrow> store \<times> app_stage2_stats" where
  "app_stage2_loop e [] p = p"
| "app_stage2_loop e (snap # rest) p = app_stage2_loop e rest (app_stage2_snap e snap p)"

definition app_stage2_zero :: app_stage2_stats where
  "app_stage2_zero =
     \<lparr>a_total = 0, a_successful = 0, a_failed = 0, a_skipped = 0, a_db_errors = 0,
      a_duplicate_snapshots = 0, a_running_snapshots = 0, a_invalid_responses = 0\<rparr>"

text \<open>\<open>api_key\<close> is the key the session holds; without one the pass touches nothing.\<close>

definition process_unprocessed_snapshots ::
    "env \<Rightarrow> string \<Rightarrow> store \<Rightarrow> app_stage2_stats \<times> store" where
  "process_unprocessed_snapshots e api_key st =
     (if api_key = [] then (app_stage2_zero, st)
      else
        let snapshots = get_unprocessed_snapshots e st in
        if snapshots = [] then (app_stage2_zero, st)
        else
          let (st', c) = app_stage2_loop e snapshots
                (st, app_stage2_zero\<lparr>a_total := length snapshots\<rparr>)
          in (c, st'))"

section \<open>Extraction: \<^verbatim>\<open>process_stage3\<close> (\<^verbatim>\<open>worker.py\<close>)\<close>

definition extract_emails_from_json :: "env \<Rightarrow> json \<Rightarrow> py_exception + string list" where
  "extract_emails_from_json e json_data =
     (case dumps e json_data of
        Inl ex \<Rightarrow> Inl ex
      | Inr data_str \<Rightarrow> Inr (extract_emails_from_text data_str))"

record stage3_stats =
  s3_total :: nat
  s3_successful :: nat
  s3_failed :: nat
  s3_emails :: nat
  s3_duplicate_emails :: nat

text \<open>The body of \<^verbatim>\<open>for email in emails\<close>.\<close>

fun save_emails :: "env \<Rightarrow> string list \<Rightarrow> store \<times> stage3_stats \<Rightarrow> store \<times> stage3_stats" where
  "save_emails e [] (st, c) = (st, c)"
| "save_emails e (email # rest) (st, c) =
     (let ((ok, err), st1) = save_email e st email in
      if ok then save_emails e rest (st1, c\<lparr>s3_emails := s3_emails c + 1\<rparr>)
      else if err = ''duplicate''
      then save_emails e rest (st1, c\<lparr>s3_duplicate_emails := s3_duplicate_emails c + 1\<rparr>)
      else save_emails e rest (st1, c))"

text \<open>The body of \<^verbatim>\<open>for row in rows\<close>.\<close>

fun stage3_row :: "env \<Rightarrow> response_row \<Rightarrow> store \<times> stage3_stats \<Rightarrow> store \<times> stage3_stats" where
  "stage3_row e row (st, c) =
     (if r_snapshot_id row = [] \<or> response row = JNull
      then (st, c\<lparr>s3_failed := s3_failed c + 1, s3_total := s3_total c + 1\<rparr>)
      else
        case extract_emails_from_json e (response row) of
          Inl ex \<Rightarrow> (st, c\<lparr>s3_failed := s3_failed c + 1, s3_total := s3_total c + 1\<rparr>)
        | Inr emails \<Rightarrow>
            let (st1, c1) = save_emails e emails (st, c);
                (marked, st2) = mark_email_extracted e st1 (r_snapshot_id row)
            in if marked
               then (st2, c1\<lparr>s3_successful := s3_successful c1 + 1, s3_total := s3_total c1 + 1\<rparr>)
               else (st2, c1\<lparr>s3_failed := s3_failed c1 + 1, s3_total := s3_total c1 + 1\<rparr>))"

fun stage3_rows ::
    "env \<Rightarrow> response_row list \<Rightarrow> store \<times> stage3_stats \<Rightarrow> store \<times> stage3_stats" where
  "stage3_rows e [] p = p"
| "stage3_rows e (row # rest) p = stage3_rows e rest (stage3_row e row p)"

text \<open>
  The \<^verbatim>\<open>while True\<close> loop: a page is fetched from offset zero, an empty page ends the loop.
  The loop may run forever, and then the result is \<^term>\<open>None\<close>.
\<close>

partial_function (option) stage3_while ::
    "env \<Rightarrow> nat \<Rightarrow> store \<times> stage3_stats \<Rightarrow> (store \<times> stage3_stats) option" where
  "stage3_while e batch_size p =
     (let rows = get_unextracted_responses e (fst p) batch_size 0 in
      if rows = [] then Some p
      else stage3_while e batch_size (stage3_rows e rows p))"

definition process_stage3 :: "env \<Rightarrow> nat \<Rightarrow> store \<Rightarrow> (stage3_stats \<times> store) option" where
  "process_stage3 e batch_size st =
     (case stage3_while e batch_size
             (st, \<lparr>s3_total = 0, s3_successful = 0, s3_failed = 0, s3_emails = 0,
                   s3_duplicate_emails = 0\<rparr>) of
        None \<Rightarrow> None
      | Some (st', c) \<Rightarrow> Some (c, st'))"

section \<open>Notions used in the statements\<close>

text \<open>
  The three verdicts of the specification, read off the flags \<^verbatim>\<open>get_snapshot_data\<close> returns
  the way its callers read them.
\<close>

datatype classification = StillProcessing | InvalidError | Valid

definition classification_of :: "json \<times> bool \<times> bool \<times> string \<Rightarrow> classification" where
  "classification_of r =
     (case r of (data, is_running, is_valid, error_reason) \<Rightarrow>
        if is_valid then Valid else if is_running then StillProcessing else InvalidError)"

text \<open>The running-status marker: either spelling the code looks for.\<close>

definition has_running_marker :: "string \<Rightarrow> bool" where
  "has_running_marker data_str =
     (contains data_str running_marker_compact \<or> contains data_str running_marker_spaced)"

text \<open>An environment without faults that answers every retrieval with \<open>payload\<close>.\<close>

definition answering :: "json \<Rightarrow> env" where
  "answering payload =
     \<lparr>http_get = (\<lambda>sid. HttpJson payload),
      http_post = (\<lambda>keywords. PostRequestException []),
      db_fault = (\<lambda>op. None),
      dumps_raises = (\<lambda>data. False)\<rparr>"

text \<open>A string payload that mentions an error and is padded to a chosen size.\<close>

definition error_padded :: "nat \<Rightarrow> json" where
  "error_padded n = JStr (''error'' @ replicate n (CHR ''a''))"




text \<open>\<^verbatim>\<open>re.search(pattern, text) is not None\<close>, started after the character \<open>prev\<close>: the
  pattern matches at some position of \<open>s\<close>.\<close>

fun search :: "char option \<Rightarrow> string \<Rightarrow> bool" where
  "search prev [] = False"
| "search prev (c # s) = (match_here prev (c # s) \<noteq> None \<or> search (Some c) s)"

text \<open>
  The specification's partition of a list into consecutive chunks of at most \<open>b\<close> entries, the
  last one possibly smaller.
\<close>

function chunks :: "nat \<Rightarrow> 'a list \<Rightarrow> 'a list list" where
  "chunks b xs = (if b = 0 \<or> xs = [] then [] else take b xs # chunks b (drop b xs))"
  by pat_completeness auto
termination
  by (relation "measure (\<lambda>(b, xs). length xs)") auto

text \<open>The statistics \<^verbatim>\<open>process_queries\<close> starts from.\<close>

definition submit_start :: "string list \<Rightarrow> submit_stats" where
  "submit_start queries =
     \<lparr>total_queries = length queries, successful_snapshots = 0, failed_batches = 0,
      total_batches = 0, submitted_ids = [], snapshot_query_map = Map.empty\<rparr>"

text \<open>A store with no rows, and an environment without faults in which the collection service
  refuses the batches listed in \<open>refused\<close> and names every other snapshot after the first
  query of its batch.\<close>

definition empty_store :: store where
  "empty_store = \<lparr>snapshot_table = [], response_table = [], email_table = []\<rparr>"

definition refusing :: "string list list \<Rightarrow> env" where
  "refusing refused =
     \<lparr>http_get = (\<lambda>sid. HttpRequestException ''unreachable''),
      http_post = (\<lambda>keywords. if keywords \<in> set refused then PostRequestException ''refused''
                               else PostJson [(''snapshot_id'', ''snap-'' @ hd keywords)]),
      db_fault = (\<lambda>op. None),
      dumps_raises = (\<lambda>data. False)\<rparr>"

text \<open>A store with one pending snapshot, without and with a response row for it.\<close>

definition pending_store :: store where
  "pending_store =
     \<lparr>snapshot_table = [\<lparr>snapshot_id = ''s1'', query = [''pizza near me''], processed = False\<rparr>],
      response_table = [],
      email_table = []\<rparr>"

definition answered_store :: "json \<Rightarrow> store" where
  "answered_store payload =
     pending_store\<lparr>response_table :=
       [\<lparr>r_snapshot_id = ''s1'', response = payload, is_email_extracted = False\<rparr>]\<rparr>"


text \<open>A payload that is valid and holds one address.\<close>

definition sample_payload :: json where
  "sample_payload = JObj [(''results'', JArr [JStr ''jane@example.com''])]"

text \<open>
  A response row the extraction pass gets marked: it has an identifier and a payload, the
  payload serialises, and the update of its flag does not fail.
\<close>

definition markable :: "env \<Rightarrow> response_row \<Rightarrow> bool" where
  "markable e row =
     (r_snapshot_id row \<noteq> [] \<and> response row \<noteq> JNull \<and> \<not> dumps_raises e (response row)
      \<and> db_fault e (UpdateExtracted (r_snapshot_id row)) = None)"

definition marked_ids :: "env \<Rightarrow> response_row list \<Rightarrow> string set" where
  "marked_ids e rows = r_snapshot_id ` set (filter (markable e) rows)"

text \<open>The update \<^verbatim>\<open>mark_email_extracted\<close> performs, for a set of identifiers.\<close>

definition mark_rows :: "string set \<Rightarrow> response_row list \<Rightarrow> response_row list" where
  "mark_rows ids tbl =
     map (\<lambda>r. if r_snapshot_id r \<in> ids then r\<lparr>is_email_extracted := True\<rparr> else r) tbl"

text \<open>The rows still to be extracted.\<close>

definition unextracted :: "store \<Rightarrow> response_row list" where
  "unextracted st = filter (\<lambda>r. \<not> is_email_extracted r) (response_table st)"

text \<open>
  The stores that can follow a store: any number of item steps of the extraction pass and of
  the retrieval passes, each in an environment of its own.
\<close>

inductive later :: "store \<Rightarrow> store \<Rightarrow> bool" where
  later_refl: "later st st"
| later_extract: "later st st1 \<Longrightarrow> later st (fst (stage3_row e row (st1, c)))"
| later_retrieve: "later st st1 \<Longrightarrow> later st (fst (stage2_snap e snap (st1, c2)))"
| later_retrieve_app: "later st st1 \<Longrightarrow> later st (fst (app_stage2_snap e snap (st1, c3)))"

text \<open>The statistics \<^verbatim>\<open>process_stage3\<close> starts from.\<close>

definition stage3_zero :: stage3_stats where
  "stage3_zero =
     \<lparr>s3_total = 0, s3_successful = 0, s3_failed = 0, s3_emails = 0, s3_duplicate_emails = 0\<rparr>"

text \<open>Every row still to be extracted gets marked when the pass reaches it.\<close>

definition all_markable :: "env \<Rightarrow> store \<Rightarrow> bool" where
  "all_markable e st = (\<forall>r\<in>set (unextracted st). markable e r)"

text \<open>
  The pass is stuck: pages can be fetched, and some row still to be extracted shares its
  identifier with no row that gets marked.
\<close>

definition stuck :: "env \<Rightarrow> nat \<Rightarrow> store \<Rightarrow> bool" where
  "stuck e batch_size st =
     (db_fault e SelectUnextracted = None \<and> 0 < batch_size
      \<and> (\<exists>r\<in>set (unextracted st). r_snapshot_id r \<notin> marked_ids e (response_table st)))"

text \<open>An environment without faults but one: every update of the extracted flag is refused.\<close>

definition refusing_updates :: env where
  "refusing_updates =
     (answering sample_payload)
       \<lparr>db_fault := (\<lambda>op. case op of UpdateExtracted sid \<Rightarrow> Some ''permission denied''
                                    | _ \<Rightarrow> None)\<rparr>"

text \<open>An environment without faults in which \<^verbatim>\<open>json.dumps\<close> raises on every payload.\<close>

definition raising_dumps :: env where
  "raising_dumps = (answering sample_payload)\<lparr>dumps_raises := (\<lambda>data. True)\<rparr>"

text \<open>The response with the identifier \<open>sid\<close> exists and is marked extracted.\<close>

definition settled :: "string \<Rightarrow> response_row list \<Rightarrow> bool" where
  "settled sid tbl =
     (sid \<in> r_snapshot_id ` set tbl \<and> (\<forall>r\<in>set tbl. r_snapshot_id r = sid \<longrightarrow> is_email_extracted r))"

text \<open>A response table with one extracted and two unextracted rows.\<close>

definition half_done_store :: store where
  "half_done_store =
     \<lparr>snapshot_table = [],
      response_table =
        [\<lparr>r_snapshot_id = ''s0'', response = sample_payload, is_email_extracted = True\<rparr>,
         \<lparr>r_snapshot_id = ''s1'', response = sample_payload, is_email_extracted = False\<rparr>,
         \<lparr>r_snapshot_id = ''s2'', response = sample_payload, is_email_extracted = False\<rparr>],
      email_table = []\<rparr>"

text \<open>
  The strings the pattern describes, word boundaries apart: a local part, \<^verbatim>\<open>@\<close>, a domain,
  a dot and at least two characters of the last class.
\<close>

definition email_shaped :: "string \<Rightarrow> bool" where
  "email_shaped m =
     (\<exists>l d t. m = l @ ''@'' @ d @ ''.'' @ t
        \<and> l \<noteq> [] \<and> (\<forall>c\<in>set l. is_local c)
        \<and> d \<noteq> [] \<and> (\<forall>c\<in>set d. is_domain c)
        \<and> 2 \<le> length t \<and> (\<forall>c\<in>set t. is_tld c))"

section \<open>Substrings and decimal numerals\<close>

declare str_nat.simps [simp del]

lemma startswith_iff: "startswith s p \<longleftrightarrow> (\<exists>suf. s = p @ suf)"
  by (induction s p rule: startswith.induct) auto

lemma contains_iff: "contains s sub \<longleftrightarrow> (\<exists>pre suf. s = pre @ sub @ suf)"
proof (induction s)
  case Nil
  then show ?case by auto
next
  case (Cons c s)
  show ?case
  proof
    assume "contains (c # s) sub"
    then consider "startswith (c # s) sub" | "contains s sub" by auto
    then show "\<exists>pre suf. c # s = pre @ sub @ suf"
    proof cases
      case 1
      then obtain suf where "c # s = sub @ suf" by (auto simp: startswith_iff)
      then have "c # s = [] @ sub @ suf" by simp
      then show ?thesis by blast
    next
      case 2
      then obtain pre suf where "s = pre @ sub @ suf" using Cons.IH by auto
      then have "c # s = (c # pre) @ sub @ suf" by simp
      then show ?thesis by blast
    qed
  next
    assume "\<exists>pre suf. c # s = pre @ sub @ suf"
    then obtain pre suf where eq: "c # s = pre @ sub @ suf" by blast
    show "contains (c # s) sub"
    proof (cases pre)
      case Nil
      with eq have "startswith (c # s) sub" by (auto simp: startswith_iff)
      then show ?thesis by simp
    next
      case (Cons p pre')
      with eq have "s = pre' @ sub @ suf" by simp
      then have "contains s sub" using Cons.IH by blast
      then show ?thesis by simp
    qed
  qed
qed

lemma contains_set: "contains s sub \<Longrightarrow> set sub \<subseteq> set s"
  by (auto simp: contains_iff)

lemma digit_char_code: "d < 10 \<Longrightarrow> (of_char (digit_char d) :: nat) = 48 + d"
  by (simp add: digit_char_def)

lemma str_nat_no_g: "CHR ''g'' \<notin> set (str_nat n)"
proof (induction n rule: str_nat.induct)
  case (1 n)
  have d: "digit_char d \<noteq> CHR ''g''" if "d < 10" for d
  proof
    assume "digit_char d = CHR ''g''"
    then have "(of_char (digit_char d) :: nat) = of_char (CHR ''g'')" by simp
    with that show False by (simp add: digit_char_code)
  qed
  show ?case
  proof (cases "n < 10")
    case True
    then show ?thesis using d[of n] by (subst str_nat.simps) auto
  next
    case False
    then show ?thesis using 1 d[of "n mod 10"] by (subst str_nat.simps) auto
  qed
qed

lemma reason_not_running:
  "\<not> contains (''Contains error and size < 2000 bytes (actual: '' @ str_nat n @ '')'') ''running''"
proof
  assume "contains (''Contains error and size < 2000 bytes (actual: '' @ str_nat n @ '')'') ''running''"
  then have "CHR ''g'' \<in> set (''Contains error and size < 2000 bytes (actual: '' @ str_nat n @ '')'')"
    using contains_set by fastforce
  then show False using str_nat_no_g[of n] by simp
qed

lemma status_reason_running: "contains ''Status is running'' ''running''"
  by simp

section \<open>Classification of a retrieval payload\<close>

lemma get_snapshot_data_running:
  assumes "http_get e sid = HttpJson data" and "\<not> dumps_raises e data"
    and "has_running_marker (json_dumps data)"
  shows "get_snapshot_data e sid = Inr (data, True, False, ''Status is running'')"
proof -
  have "contains ''Status is running'' ''running''" by simp
  with assms show ?thesis
    unfolding get_snapshot_data_def dumps_def has_running_marker_def
    by (simp del: contains.simps)
qed

lemma get_snapshot_data_error:
  assumes "http_get e sid = HttpJson data" and "\<not> dumps_raises e data"
    and "\<not> has_running_marker (json_dumps data)"
    and "contains (py_lower (json_dumps data)) ''error''"
    and "length (json_dumps data) < 2000"
  shows "get_snapshot_data e sid =
           Inr (data, False, False,
                ''Contains error and size < 2000 bytes (actual: ''
                  @ str_nat (length (json_dumps data)) @ '')'')"
  using assms reason_not_running[of "length (json_dumps data)"]
  unfolding get_snapshot_data_def dumps_def has_running_marker_def
  by (simp del: contains.simps)

lemma get_snapshot_data_valid:
  assumes "http_get e sid = HttpJson data" and "\<not> dumps_raises e data"
    and "\<not> has_running_marker (json_dumps data)"
    and "\<not> (contains (py_lower (json_dumps data)) ''error'' \<and> length (json_dumps data) < 2000)"
  shows "get_snapshot_data e sid = Inr (data, False, True, [])"
  using assms
  unfolding get_snapshot_data_def dumps_def has_running_marker_def
  by (auto simp del: contains.simps)

text \<open>
  C2. A payload whose serialisation holds the running-status marker is still-processing,
  whatever else it holds; otherwise it is invalid-error exactly when the serialisation mentions
  an error and is shorter than 2000 bytes; otherwise it is valid.
\<close>

theorem classification_rules_in_order:
  assumes "http_get e sid = HttpJson data" and "\<not> dumps_raises e data"
  shows "\<exists>r. get_snapshot_data e sid = Inr r \<and> fst r = data
           \<and> classification_of r =
               (if has_running_marker (json_dumps data) then StillProcessing
                else if contains (py_lower (json_dumps data)) ''error''
                        \<and> length (json_dumps data) < 2000
                then InvalidError
                else Valid)"
proof (cases "has_running_marker (json_dumps data)")
  case True
  then show ?thesis
    using get_snapshot_data_running[OF assms] by (simp add: classification_of_def)
next
  case nr: False
  show ?thesis
  proof (cases "contains (py_lower (json_dumps data)) ''error'' \<and> length (json_dumps data) < 2000")
    case True
    then show ?thesis
      using nr get_snapshot_data_error[OF assms] by (simp add: classification_of_def)
  next
    case False
    then show ?thesis
      using nr get_snapshot_data_valid[OF assms] by (simp add: classification_of_def)
  qed
qed


lemma escape_replicate_a: "concat (map escape_char (replicate n (CHR ''a''))) = replicate n (CHR ''a'')"
  by (induction n) (simp_all add: escape_char_def)

lemma dumps_error_padded:
  "json_dumps (error_padded n) = CHR 0x22 # ''error'' @ replicate n (CHR ''a'') @ [CHR 0x22]"
  by (simp add: error_padded_def encode_str_def escape_replicate_a escape_char_def)

lemma lower_replicate_a: "py_lower (replicate n (CHR ''a'')) = replicate n (CHR ''a'')"
  by (simp add: py_lower_def lower_char_def is_upper_def)

lemma error_padded_facts:
  "length (json_dumps (error_padded n)) = n + 7"
  "contains (py_lower (json_dumps (error_padded n))) ''error''"
  "\<not> has_running_marker (json_dumps (error_padded n))"
proof -
  show "length (json_dumps (error_padded n)) = n + 7"
    by (simp add: dumps_error_padded)
  have "py_lower (json_dumps (error_padded n))
          = [CHR 0x22] @ ''error'' @ (replicate n (CHR ''a'') @ [CHR 0x22])"
    using lower_replicate_a[of n]
    by (simp add: dumps_error_padded py_lower_def lower_char_def is_upper_def)
  then show "contains (py_lower (json_dumps (error_padded n))) ''error''"
    unfolding contains_iff by blast
  have t: "CHR ''t'' \<notin> set (json_dumps (error_padded n))"
    by (simp add: dumps_error_padded)
  show "\<not> has_running_marker (json_dumps (error_padded n))"
  proof
    assume "has_running_marker (json_dumps (error_padded n))"
    then have "set running_marker_compact \<subseteq> set (json_dumps (error_padded n))
               \<or> set running_marker_spaced \<subseteq> set (json_dumps (error_padded n))"
      unfolding has_running_marker_def using contains_set by blast
    then have "CHR ''t'' \<in> set (json_dumps (error_padded n))"
      by (auto simp: running_marker_compact_def running_marker_spaced_def)
    with t show False by simp
  qed
qed

text \<open>The boundary is exact: 1999 bytes with an error are invalid-error, 2000 bytes are valid;
  a running payload is still-processing although it mentions an error.\<close>

theorem classification_rules_in_order_witness:
  "length (json_dumps (error_padded 1992)) = 1999
   \<and> classification_of (projr (get_snapshot_data (answering (error_padded 1992)) ''s1'')) = InvalidError
   \<and> length (json_dumps (error_padded 1993)) = 2000
   \<and> classification_of (projr (get_snapshot_data (answering (error_padded 1993)) ''s1'')) = Valid
   \<and> classification_of (projr (get_snapshot_data
         (answering (JObj [(''status'', JStr ''running''), (''error'', JStr ''x'')])) ''s1''))
       = StillProcessing"
proof -
  have h: "http_get (answering p) ''s1'' = HttpJson p" "\<not> dumps_raises (answering p) p" for p
    by (simp_all add: answering_def)
  have r: "has_running_marker (json_dumps (JObj [(''status'', JStr ''running''), (''error'', JStr ''x'')]))"
    by (simp add: has_running_marker_def running_marker_spaced_def running_marker_compact_def
          encode_str_def escape_char_def)
  show ?thesis
    using classification_rules_in_order[OF h, of "error_padded 1992"]
      classification_rules_in_order[OF h, of "error_padded 1993"]
      classification_rules_in_order[OF h, of "JObj [(''status'', JStr ''running''), (''error'', JStr ''x'')]"]
      error_padded_facts[of 1992] error_padded_facts[of 1993] r
    by (auto simp del: contains.simps json_dumps.simps)
qed

section \<open>The error indicator\<close>

lemma contains_lower_iff:
  "contains (py_lower s) sub \<longleftrightarrow> (\<exists>pre x suf. s = pre @ x @ suf \<and> py_lower x = sub)"
proof
  assume "contains (py_lower s) sub"
  then obtain p q where "map lower_char s = p @ (sub @ q)"
    unfolding contains_iff py_lower_def by blast
  then have "\<exists>us vs. s = us @ vs \<and> p = map lower_char us \<and> sub @ q = map lower_char vs"
    by (simp add: map_eq_append_conv)
  then obtain pre rest where s: "s = pre @ rest" and r: "map lower_char rest = sub @ q"
    by metis
  from r have "\<exists>us vs. rest = us @ vs \<and> sub = map lower_char us \<and> q = map lower_char vs"
    by (simp add: map_eq_append_conv)
  then obtain x suf where "rest = x @ suf" and "map lower_char x = sub"
    by metis
  with s show "\<exists>pre x suf. s = pre @ x @ suf \<and> py_lower x = sub"
    unfolding py_lower_def by blast
next
  assume "\<exists>pre x suf. s = pre @ x @ suf \<and> py_lower x = sub"
  then obtain pre x suf where "s = pre @ x @ suf" and "py_lower x = sub" by blast
  then have "py_lower s = py_lower pre @ sub @ py_lower suf"
    by (auto simp: py_lower_def)
  then show "contains (py_lower s) sub" unfolding contains_iff by blast
qed

text \<open>
  C10. The error indicator is a case-insensitive search for the letters \<^verbatim>\<open>error\<close> anywhere in
  the serialised payload: a payload without the running marker, shorter than 2000 bytes, whose
  serialisation holds these letters in any case and at any place, is invalid-error.
\<close>

theorem error_indicator_is_substring_test:
  assumes "http_get e sid = HttpJson data" and "\<not> dumps_raises e data"
    and "\<not> has_running_marker (json_dumps data)"
    and "json_dumps data = pre @ x @ suf" and "py_lower x = ''error''"
    and "length (json_dumps data) < 2000"
  shows "(\<exists>error_reason. get_snapshot_data e sid = Inr (data, False, False, error_reason))
         \<and> classification_of (projr (get_snapshot_data e sid)) = InvalidError"
proof -
  have c: "contains (py_lower (json_dumps data)) ''error''"
    unfolding contains_lower_iff using assms(4,5) by blast
  have "\<exists>error_reason. get_snapshot_data e sid = Inr (data, False, False, error_reason)"
    using get_snapshot_data_error[OF assms(1,2,3) c assms(6)] by blast
  then show ?thesis
    by (auto simp: classification_of_def)
qed

text \<open>A payload that is no error envelope: an address whose name happens to hold the five
  letters, in mixed case.\<close>

theorem error_indicator_is_substring_test_witness:
  "get_snapshot_data (answering (JObj [(''email'', JStr ''Pat.Errorson@example.com'')])) ''s1''
     = Inr (JObj [(''email'', JStr ''Pat.Errorson@example.com'')], False, False,
            ''Contains error and size < 2000 bytes (actual: 37)'')
   \<and> classification_of (projr (get_snapshot_data
          (answering (JObj [(''email'', JStr ''Pat.Errorson@example.com'')])) ''s1'')) = InvalidError"
proof -
  let ?p = "JObj [(''email'', JStr ''Pat.Errorson@example.com'')]"
  have d: "json_dumps ?p = ([CHR ''{'', CHR 0x22] @ ''email'' @ [CHR 0x22] @ '': '' @ [CHR 0x22] @ ''Pat.'')
             @ ''Error'' @ (''son@example.com'' @ [CHR 0x22] @ ''}'')"
    by (simp add: encode_str_def escape_char_def)
  have l: "py_lower ''Error'' = ''error''"
    by code_simp
  have n: "\<not> has_running_marker (json_dumps ?p)"
    by (simp add: has_running_marker_def running_marker_compact_def running_marker_spaced_def
          encode_str_def escape_char_def)
  have len: "length (json_dumps ?p) < 2000"
    by (simp add: encode_str_def escape_char_def)
  have h: "http_get (answering ?p) ''s1'' = HttpJson ?p" "\<not> dumps_raises (answering ?p) ?p"
    by (simp_all add: answering_def)
  have v: "get_snapshot_data (answering ?p) ''s1''
     = Inr (?p, False, False, ''Contains error and size < 2000 bytes (actual: 37)'')"
    by code_simp
  show ?thesis
    using error_indicator_is_substring_test[OF h n d l len] v by simp
qed

section \<open>Query deduplication\<close>















section \<open>Email extraction\<close>

lemma findall_no_match: "\<not> search prev s \<Longrightarrow> findall prev s = []"
  by (induction s arbitrary: prev) auto

lemma char_at_Some_in_set: "char_at s i = Some c \<Longrightarrow> c \<in> set s"
  by (auto simp: char_at_def split: if_splits)

lemma match_here_at: "match_here prev s = Some n \<Longrightarrow> CHR ''@'' \<in> set s"
  by (auto simp: match_here_def Let_def split: if_splits option.splits dest: char_at_Some_in_set)

lemma search_at: "search prev s \<Longrightarrow> CHR ''@'' \<in> set s"
  by (induction s arbitrary: prev) (auto dest: match_here_at)

lemma tld_end_bounds: "tld_end r n = Some t \<Longrightarrow> 2 \<le> t \<and> t \<le> n"
  by (induction r n rule: tld_end.induct) (auto split: if_splits)

lemma domain_end_shape:
  "domain_end r k0 = Some d \<Longrightarrow>
     \<exists>k t. 0 < k \<and> k \<le> k0 \<and> char_at r k = Some (CHR ''.'')
        \<and> tld_end (drop (Suc k) r) (length (takeWhile is_tld (drop (Suc k) r))) = Some t
        \<and> d = Suc k + t"
proof (induction r k0 rule: domain_end.induct)
  case (1 r)
  then show ?case by simp
next
  case (2 r k)
  show ?case
  proof (cases "char_at r (Suc k) = Some (CHR ''.'')")
    case dot: True
    show ?thesis
    proof (cases "tld_end (drop (Suc (Suc k)) r) (length (takeWhile is_tld (drop (Suc (Suc k)) r)))")
      case None
      then have "domain_end r k = Some d" using 2(3) dot by simp
      from 2(1)[OF dot None this] obtain k' t where
        "0 < k'" "k' \<le> k" "char_at r k' = Some (CHR ''.'')"
        "tld_end (drop (Suc k') r) (length (takeWhile is_tld (drop (Suc k') r))) = Some t"
        "d = Suc k' + t" by blast
      then show ?thesis by (intro exI[of _ k'] exI[of _ t]) simp
    next
      case (Some t)
      then have "d = Suc (Suc k) + t" using 2(3) dot by simp
      with dot Some show ?thesis by (intro exI[of _ "Suc k"] exI[of _ t]) simp
    qed
  next
    case False
    then have "domain_end r k = Some d" using 2(3) by simp
    from 2(2)[OF False this] obtain k' t where
      "0 < k'" "k' \<le> k" "char_at r k' = Some (CHR ''.'')"
      "tld_end (drop (Suc k') r) (length (takeWhile is_tld (drop (Suc k') r))) = Some t"
      "d = Suc k' + t" by blast
    then show ?thesis by (intro exI[of _ k'] exI[of _ t]) simp
  qed
qed

lemma take_takeWhile_all: "n \<le> length (takeWhile P xs) \<Longrightarrow> \<forall>c\<in>set (take n xs). P c"
proof
  fix c assume n: "n \<le> length (takeWhile P xs)" and c: "c \<in> set (take n xs)"
  have "take n (takeWhile P xs @ dropWhile P xs) = take n (takeWhile P xs)"
    using n by (simp del: takeWhile_dropWhile_id)
  then have "take n xs = take n (takeWhile P xs)" by simp
  then have "c \<in> set (takeWhile P xs)" using c by (auto dest: in_set_takeD)
  then show "P c" by (rule set_takeWhileD[THEN conjunct2])
qed

lemma char_at_split: "char_at s i = Some c \<Longrightarrow> s = take i s @ [c] @ drop (Suc i) s"
  by (auto simp: char_at_def id_take_nth_drop split: if_splits)

lemma domain_end_language:
  assumes "domain_end r (length (takeWhile is_domain r)) = Some n"
  shows "n \<le> length r \<and> (\<exists>d t. take n r = d @ ''.'' @ t \<and> d \<noteq> [] \<and> (\<forall>c\<in>set d. is_domain c)
            \<and> 2 \<le> length t \<and> (\<forall>c\<in>set t. is_tld c))"
proof -
  obtain k t where k: "0 < k" "k \<le> length (takeWhile is_domain r)"
      and dot: "char_at r k = Some (CHR ''.'')"
      and t: "tld_end (drop (Suc k) r) (length (takeWhile is_tld (drop (Suc k) r))) = Some t"
      and n: "n = Suc k + t"
    using domain_end_shape[OF assms] by blast
  have tb: "2 \<le> t" "t \<le> length (takeWhile is_tld (drop (Suc k) r))"
    using tld_end_bounds[OF t] by simp_all
  have kl: "k < length r" using dot by (auto simp: char_at_def split: if_splits)
  have tl: "t \<le> length (drop (Suc k) r)"
    using tb(2) length_takeWhile_le[of is_tld "drop (Suc k) r"] by linarith
  have r: "r = take k r @ [CHR ''.''] @ drop (Suc k) r" by (rule char_at_split[OF dot])
  have "take n r = take (Suc k + t) (take k r @ [CHR ''.''] @ drop (Suc k) r)"
    using n r by simp
  also have "\<dots> = take k r @ [CHR ''.''] @ take t (drop (Suc k) r)"
    using kl by (simp add: min_def)
  finally have eq: "take n r = take k r @ ''.'' @ take t (drop (Suc k) r)" by simp
  have "take k r \<noteq> []" using k(1) kl by auto
  moreover have "\<forall>c\<in>set (take k r). is_domain c" by (rule take_takeWhile_all[OF k(2)])
  moreover have "\<forall>c\<in>set (take t (drop (Suc k) r)). is_tld c" by (rule take_takeWhile_all[OF tb(2)])
  moreover have "2 \<le> length (take t (drop (Suc k) r))" using tb(1) tl by simp
  moreover have "n \<le> length r" using n kl tl by simp
  ultimately show ?thesis using eq by blast
qed

lemma match_here_language:
  assumes "match_here prev s = Some n"
  shows "n \<le> length s \<and> email_shaped (take n s)"
proof -
  let ?l = "length (takeWhile is_local s)"
  let ?r = "drop (Suc ?l) s"
  from assms have l0: "?l \<noteq> 0" and at: "char_at s ?l = Some (CHR ''@'')"
    by (auto simp: match_here_def Let_def split: if_splits option.splits)
  from assms obtain d where d: "domain_end ?r (length (takeWhile is_domain ?r)) = Some d"
      and n: "n = Suc ?l + d"
    by (auto simp: match_here_def Let_def split: if_splits option.splits)
  obtain dm t where dl: "d \<le> length ?r" and eq: "take d ?r = dm @ ''.'' @ t"
      and dm: "dm \<noteq> []" "\<forall>c\<in>set dm. is_domain c" and tt: "2 \<le> length t" "\<forall>c\<in>set t. is_tld c"
    using domain_end_language[OF d] by blast
  have ll: "?l < length s" using at by (auto simp: char_at_def split: if_splits)
  have s: "s = take ?l s @ [CHR ''@''] @ ?r" by (rule char_at_split[OF at])
  have "take n s = take (Suc ?l + d) (take ?l s @ [CHR ''@''] @ ?r)" using n s by simp
  also have "\<dots> = take ?l s @ [CHR ''@''] @ take d ?r" using ll by (simp add: min_def)
  finally have m: "take n s = take ?l s @ ''@'' @ dm @ ''.'' @ t" using eq by simp
  have "take ?l s \<noteq> []" using l0 ll by auto
  moreover have "\<forall>c\<in>set (take ?l s). is_local c" by (rule take_takeWhile_all) simp
  ultimately have "email_shaped (take n s)"
    unfolding email_shaped_def using m dm tt by blast
  moreover have "n \<le> length s" using n dl ll by simp
  ultimately show ?thesis by simp
qed

lemma findall_matches:
  "m \<in> set (findall prev s) \<Longrightarrow> email_shaped m \<and> (\<exists>pre suf. s = pre @ m @ suf)"
proof (induction prev s rule: findall.induct)
  case (1 prev)
  then show ?case by simp
next
  case (2 prev c s)
  show ?case
  proof (cases "match_here prev (c # s)")
    case None
    then have "m \<in> set (findall (Some c) s)" using 2(3) by simp
    from 2(1)[OF None this] obtain pre suf where "email_shaped m" "s = pre @ m @ suf" by blast
    then have "c # s = (c # pre) @ m @ suf" by simp
    with \<open>email_shaped m\<close> show ?thesis by blast
  next
    case (Some n)
    then consider "m = take n (c # s)" | "m \<in> set (findall (char_at (c # s) (n - 1)) (drop n (c # s)))"
      using 2(3) by auto
    then show ?thesis
    proof cases
      case 1
      have "c # s = [] @ take n (c # s) @ drop n (c # s)" by simp
      then show ?thesis using 1 match_here_language[OF Some] by blast
    next
      case 2
      from "2.IH"(2)[OF Some 2] obtain pre suf where e: "email_shaped m" and
        "drop n (c # s) = pre @ m @ suf" by blast
      then have "c # s = (take n (c # s) @ pre) @ m @ suf"
        by (metis append.assoc append_take_drop_id)
      with e show ?thesis by blast
    qed
  qed
qed

lemma email_shaped_at: "email_shaped m \<Longrightarrow> CHR ''@'' \<in> set m"
  by (auto simp: email_shaped_def)

lemma no_shaped_substring:
  "CHR ''@'' \<notin> set t \<Longrightarrow> contains t m \<Longrightarrow> \<not> email_shaped m"
  using contains_set[of t m] email_shaped_at[of m] by auto

text \<open>
  C7. The scenario text yields exactly its one address. A text with no match of the pattern
  yields nothing: one in which the search of the pattern fails, one none of whose substrings
  has the shape the pattern describes, and so every text without the character \<^verbatim>\<open>@\<close>. The
  addresses returned are pairwise different, compared as written, and each of them is a
  substring of the text that has the shape the pattern describes.
\<close>

theorem extract_emails_scenarios:
  "set (extract_emails_from_text ''contact: Jane.Doe+promo@Example.co.uk please'')
     = {''Jane.Doe+promo@Example.co.uk''}
   \<and> (\<not> search None t \<longrightarrow> extract_emails_from_text t = [])
   \<and> ((\<forall>m. contains t m \<longrightarrow> \<not> email_shaped m) \<longrightarrow> extract_emails_from_text t = [])
   \<and> (CHR ''@'' \<notin> set t \<longrightarrow> extract_emails_from_text t = [])
   \<and> distinct (extract_emails_from_text t)
   \<and> (\<forall>m\<in>set (extract_emails_from_text t). contains t m \<and> email_shaped m)"
proof -
  have sc: "extract_emails_from_text ''contact: Jane.Doe+promo@Example.co.uk please''
          = [''Jane.Doe+promo@Example.co.uk'']"
    by code_simp
  have sound: "\<forall>m\<in>set (extract_emails_from_text t). contains t m \<and> email_shaped m"
    using findall_matches[of _ None t] by (auto simp: extract_emails_from_text_def contains_iff)
  have lang: "extract_emails_from_text t = []" if "\<forall>m. contains t m \<longrightarrow> \<not> email_shaped m"
  proof (cases "extract_emails_from_text t")
    case Nil
    then show ?thesis .
  next
    case (Cons m ms)
    then have "m \<in> set (extract_emails_from_text t)" by simp
    with sound that show ?thesis by blast
  qed
  have c1: "set (extract_emails_from_text ''contact: Jane.Doe+promo@Example.co.uk please'')
     = {''Jane.Doe+promo@Example.co.uk''}"
    unfolding sc by (rule list.set(2)[of _ "[]", unfolded list.set(1)])
  have c2: "\<not> search None t \<longrightarrow> extract_emails_from_text t = []"
    using findall_no_match[of None t] by (simp add: extract_emails_from_text_def)
  have c3: "(\<forall>m. contains t m \<longrightarrow> \<not> email_shaped m) \<longrightarrow> extract_emails_from_text t = []"
    using lang by (rule impI)
  have c4: "CHR ''@'' \<notin> set t \<longrightarrow> extract_emails_from_text t = []"
    using findall_no_match[of None t] search_at[of None t]
    by (auto simp: extract_emails_from_text_def)
  have c5: "distinct (extract_emails_from_text t)"
    by (simp add: extract_emails_from_text_def)
  show ?thesis
    by (intro conjI) (rule c1, rule c2, rule c3, rule c4, rule c5, rule sound)
qed

text \<open>A text with an \<^verbatim>\<open>@\<close> and no match, a text without one, and a text that repeats an
  address and varies its case.\<close>

theorem extract_emails_scenarios_witness:
  "\<not> search None ''write to jane at example.com or user@localhost''
   \<and> extract_emails_from_text ''write to jane at example.com or user@localhost'' = []
   \<and> extract_emails_from_text ''no address here'' = []
   \<and> extract_emails_from_text ''a@b.co, A@b.co; a@b.co'' = [''A@b.co'', ''a@b.co'']
   \<and> email_shaped ''A@b.co''"
proof -
  have s: "\<not> search None ''write to jane at example.com or user@localhost''"
    by code_simp
  have a: "CHR ''@'' \<notin> set ''no address here''"
    by simp
  have n: "\<forall>m. contains ''no address here'' m \<longrightarrow> \<not> email_shaped m"
    using no_shaped_substring[OF a] by blast
  have d: "findall None ''a@b.co, A@b.co; a@b.co'' = [''a@b.co'', ''A@b.co'', ''a@b.co'']"
    by code_simp
  then have e: "extract_emails_from_text ''a@b.co, A@b.co; a@b.co'' = [''A@b.co'', ''a@b.co'']"
    by (simp add: extract_emails_from_text_def)
  have "extract_emails_from_text ''write to jane at example.com or user@localhost'' = []"
    using extract_emails_scenarios[of "''write to jane at example.com or user@localhost''"] s
    by blast
  moreover have "extract_emails_from_text ''no address here'' = []"
    using extract_emails_scenarios[of "''no address here''"] n by blast
  moreover have "email_shaped ''A@b.co''"
    using extract_emails_scenarios[of "''a@b.co, A@b.co; a@b.co''"] e by simp
  ultimately show ?thesis using s n e by blast
qed

section \<open>Batch submission\<close>

declare chunks.simps [simp del]
declare batch_loop.simps [simp del]
declare submit_batch.simps [simp del]

lemma chunks_Nil: "chunks b [] = []"
  by (simp add: chunks.simps)

lemma chunks_step: "0 < b \<Longrightarrow> xs \<noteq> [] \<Longrightarrow> chunks b xs = take b xs # chunks b (drop b xs)"
  by (subst chunks.simps) simp

lemma concat_chunks: "0 < b \<Longrightarrow> concat (chunks b xs) = xs"
proof (induction b xs rule: chunks.induct)
  case (1 b xs)
  then show ?case by (cases "xs = []") (simp_all add: chunks_Nil chunks_step)
qed

lemma map_length_chunks:
  "0 < b \<Longrightarrow> map length (chunks b xs) =
     replicate (length xs div b) b @ (if length xs mod b = 0 then [] else [length xs mod b])"
proof (induction b xs rule: chunks.induct)
  case (1 b xs)
  show ?case
  proof (cases "xs = []")
    case True
    then show ?thesis by (simp add: chunks_Nil)
  next
    case ne: False
    show ?thesis
    proof (cases "b \<le> length xs")
      case True
      then have d: "length xs div b = Suc ((length xs - b) div b)" and m: "length xs mod b = (length xs - b) mod b"
        using 1(2) by (simp_all add: le_div_geq le_mod_geq)
      show ?thesis
        using 1 ne True by (simp add: chunks_step d m min_def)
    next
      case False
      then show ?thesis using 1(2) ne by (simp add: chunks_step chunks_Nil)
    qed
  qed
qed

lemma ceil_div: "0 < (b::nat) \<Longrightarrow> (n + b - 1) div b = n div b + (if n mod b = 0 then 0 else 1)"
proof -
  assume b: "0 < b"
  define k where "k = n div b"
  define r where "r = n mod b"
  have n: "n = b * k + r" and rb: "r < b" using b by (simp_all add: k_def r_def)
  show ?thesis
  proof (cases "r = 0")
    case True
    obtain c where c: "b = Suc c" using b by (cases b) auto
    have "(n + b - 1) div b = (Suc c * k + c) div Suc c" using n True c by simp
    also have "\<dots> = k + c div Suc c" by (rule div_mult_self4) simp
    finally have "(n + b - 1) div b = k" by simp
    then show ?thesis using True by (simp add: k_def r_def)
  next
    case False
    have "b * k + r + b - 1 = b * (k + 1) + (r - 1)" using False by (simp add: algebra_simps)
    moreover have "(b * (k + 1) + (r - 1)) div b = (k + 1) + (r - 1) div b"
      using b by (intro div_mult_self4) simp
    moreover have "(r - 1) div b = 0" using rb by simp
    ultimately have "(n + b - 1) div b = k + 1" using n by simp
    then show ?thesis using False by (simp add: k_def r_def)
  qed
qed

lemma length_chunks: "0 < b \<Longrightarrow> length (chunks b xs) = (length xs + b - 1) div b"
proof -
  assume b: "0 < b"
  have "length (chunks b xs) = length (map length (chunks b xs))" by simp
  also have "\<dots> = length xs div b + (if length xs mod b = 0 then 0 else 1)"
    using b by (simp add: map_length_chunks)
  finally show ?thesis using ceil_div[OF b, of "length xs"] by simp
qed

lemma batch_loop_chunks:
  "0 < b \<Longrightarrow> batch_loop e queries b i p = foldl (submit_batch e) p (chunks b (drop i queries))"
proof (induction e queries b i p rule: batch_loop.induct)
  case (1 e queries b i p)
  show ?case
  proof (cases "length queries \<le> i")
    case True
    then show ?thesis using 1(2) by (subst batch_loop.simps) (simp add: chunks_Nil)
  next
    case False
    then have ne: "drop i queries \<noteq> []" by simp
    have "batch_loop e queries b i p
            = batch_loop e queries b (i + b) (submit_batch e p (take b (drop i queries)))"
      using False 1(2) by (subst batch_loop.simps) simp
    also have "\<dots> = foldl (submit_batch e) (submit_batch e p (take b (drop i queries)))
                        (chunks b (drop (i + b) queries))"
      using 1 False by simp
    also have "\<dots> = foldl (submit_batch e) p (chunks b (drop i queries))"
      using 1(2) ne by (simp add: chunks_step[of b "drop i queries"] add.commute)
    finally show ?thesis .
  qed
qed

lemma submit_batch_counts:
  "total_batches (snd (submit_batch e p batch)) = total_batches (snd p) + 1
   \<and> successful_snapshots (snd (submit_batch e p batch)) + failed_batches (snd (submit_batch e p batch))
       = successful_snapshots (snd p) + failed_batches (snd p) + 1
   \<and> total_queries (snd (submit_batch e p batch)) = total_queries (snd p)"
  by (cases p) (auto simp: submit_batch.simps Let_def save_snapshot_def split: option.splits prod.splits)

lemma foldl_submit_counts:
  "total_batches (snd (foldl (submit_batch e) p cs)) = total_batches (snd p) + length cs
   \<and> successful_snapshots (snd (foldl (submit_batch e) p cs))
       + failed_batches (snd (foldl (submit_batch e) p cs))
       = successful_snapshots (snd p) + failed_batches (snd p) + length cs
   \<and> total_queries (snd (foldl (submit_batch e) p cs)) = total_queries (snd p)"
proof (induction cs arbitrary: p)
  case Nil
  show ?case by simp
next
  case (Cons c cs)
  show ?case using Cons[of "submit_batch e p c"] submit_batch_counts[of e p c] by simp
qed

lemma process_queries_fold:
  "0 < b \<Longrightarrow> process_queries e st queries b =
     Inr (snd (foldl (submit_batch e) (st, submit_start queries) (chunks b queries)),
          fst (foldl (submit_batch e) (st, submit_start queries) (chunks b queries)))"
  by (simp add: process_queries_def batch_loop_chunks submit_start_def split: prod.splits)


lemma submit_batch_ok:
  assumes "send_request e batch = Some r" and "map_of r ''snapshot_id'' = Some sid"
    and "db_fault e (InsertSnapshot sid) = None"
  shows "submit_batch e (st, s) batch =
           (st\<lparr>snapshot_table := snapshot_table st @
                 [\<lparr>snapshot_id = sid, query = batch, processed = False\<rparr>]\<rparr>,
            s\<lparr>total_batches := total_batches s + 1,
              successful_snapshots := successful_snapshots s + 1,
              submitted_ids := submitted_ids s @ [sid],
              snapshot_query_map := (snapshot_query_map s)(sid \<mapsto> batch)\<rparr>)"
proof -
  have "r \<noteq> []" using assms(2) by auto
  then show ?thesis using assms
    by (simp add: submit_batch.simps save_snapshot_def)
qed

lemma submit_batch_refused:
  assumes "send_request e batch = None"
  shows "submit_batch e (st, s) batch =
           (st, s\<lparr>total_batches := total_batches s + 1, failed_batches := failed_batches s + 1\<rparr>)"
  using assms by (simp add: submit_batch.simps)

lemma chunks_five: "chunks 2 [q1, q2, q3, q4, q5] = [[q1, q2], [q3, q4], [q5]]"
  by (simp add: chunks.simps)

lemma second_batch_refused:
  assumes "send_request e [q1, q2] = Some r1" and "map_of r1 ''snapshot_id'' = Some sid1"
    and "db_fault e (InsertSnapshot sid1) = None"
    and "send_request e [q3, q4] = None"
    and "send_request e [q5] = Some r3" and "map_of r3 ''snapshot_id'' = Some sid3"
    and "db_fault e (InsertSnapshot sid3) = None"
  shows "process_queries e st [q1, q2, q3, q4, q5] 2 =
     Inr (\<lparr>total_queries = 5, successful_snapshots = 2, failed_batches = 1, total_batches = 3,
           submitted_ids = [sid1, sid3],
           snapshot_query_map = [sid1 \<mapsto> [q1, q2], sid3 \<mapsto> [q5]]\<rparr>,
          st\<lparr>snapshot_table := snapshot_table st @
               [\<lparr>snapshot_id = sid1, query = [q1, q2], processed = False\<rparr>,
                \<lparr>snapshot_id = sid3, query = [q5], processed = False\<rparr>]\<rparr>)"
  by (simp add: process_queries_fold chunks_five submit_start_def
      submit_batch_ok[OF assms(1,2,3)] submit_batch_refused[OF assms(4)]
      submit_batch_ok[OF assms(5,6,7)])

text \<open>
  C5. For a batch size \<open>b > 0\<close>, \<^verbatim>\<open>process_queries\<close> runs its loop body over the consecutive
  chunks of the query list, each of \<open>b\<close> queries but possibly the last; it counts
  \<open>\<lceil>n / b\<rceil>\<close> batches, and every batch is counted once as a success or as a failure. With
  five different queries and \<open>b = 2\<close>, the batch sizes are 2, 2 and 1; when the second batch
  is refused and the other two are accepted and stored, there are two successes and one failure,
  and the refused batch's queries are in no entry of the snapshot mapping and in no stored row.
\<close>

theorem batch_submission:
  assumes "0 < b"
  shows "\<exists>s st'. process_queries e st queries b = Inr (s, st')
      \<and> (st', s) = foldl (submit_batch e) (st, submit_start queries) (chunks b queries)
      \<and> concat (chunks b queries) = queries
      \<and> map length (chunks b queries) =
          replicate (length queries div b) b
            @ (if length queries mod b = 0 then [] else [length queries mod b])
      \<and> total_batches s = length (chunks b queries)
      \<and> total_batches s = (length queries + b - 1) div b
      \<and> successful_snapshots s + failed_batches s = total_batches s
      \<and> total_queries s = length queries
      \<and> (queries = [q1, q2, q3, q4, q5] \<and> b = 2 \<and> distinct queries
           \<and> send_request e [q1, q2] = Some r1 \<and> map_of r1 ''snapshot_id'' = Some sid1
           \<and> db_fault e (InsertSnapshot sid1) = None
           \<and> send_request e [q3, q4] = None
           \<and> send_request e [q5] = Some r3 \<and> map_of r3 ''snapshot_id'' = Some sid3
           \<and> db_fault e (InsertSnapshot sid3) = None
         \<longrightarrow> map length (chunks b queries) = [2, 2, 1]
           \<and> successful_snapshots s = 2 \<and> failed_batches s = 1 \<and> total_batches s = 3
           \<and> (\<forall>sid batch. snapshot_query_map s sid = Some batch \<longrightarrow> q3 \<notin> set batch \<and> q4 \<notin> set batch)
           \<and> snapshot_table st' = snapshot_table st @
                [\<lparr>snapshot_id = sid1, query = [q1, q2], processed = False\<rparr>,
                 \<lparr>snapshot_id = sid3, query = [q5], processed = False\<rparr>])"
proof -
  let ?p = "foldl (submit_batch e) (st, submit_start queries) (chunks b queries)"
  have c: "total_batches (snd ?p) = length (chunks b queries)"
      "successful_snapshots (snd ?p) + failed_batches (snd ?p) = length (chunks b queries)"
      "total_queries (snd ?p) = length queries"
    using foldl_submit_counts[of e "(st, submit_start queries)" "chunks b queries"]
    by (simp_all add: submit_start_def)
  have scen: "map length (chunks b queries) = [2, 2, 1]
           \<and> successful_snapshots (snd ?p) = 2 \<and> failed_batches (snd ?p) = 1 \<and> total_batches (snd ?p) = 3
           \<and> (\<forall>sid batch. snapshot_query_map (snd ?p) sid = Some batch \<longrightarrow> q3 \<notin> set batch \<and> q4 \<notin> set batch)
           \<and> snapshot_table (fst ?p) = snapshot_table st @
                [\<lparr>snapshot_id = sid1, query = [q1, q2], processed = False\<rparr>,
                 \<lparr>snapshot_id = sid3, query = [q5], processed = False\<rparr>]"
    if h: "queries = [q1, q2, q3, q4, q5]" "b = 2" "distinct queries"
       "send_request e [q1, q2] = Some r1" "map_of r1 ''snapshot_id'' = Some sid1"
       "db_fault e (InsertSnapshot sid1) = None"
       "send_request e [q3, q4] = None"
       "send_request e [q5] = Some r3" "map_of r3 ''snapshot_id'' = Some sid3"
       "db_fault e (InsertSnapshot sid3) = None"
  proof -
    have "process_queries e st queries b = Inr (snd ?p, fst ?p)"
      using assms by (rule process_queries_fold)
    then have eq: "snd ?p = \<lparr>total_queries = 5, successful_snapshots = 2, failed_batches = 1,
           total_batches = 3, submitted_ids = [sid1, sid3],
           snapshot_query_map = [sid1 \<mapsto> [q1, q2], sid3 \<mapsto> [q5]]\<rparr>"
        "fst ?p = st\<lparr>snapshot_table := snapshot_table st @
               [\<lparr>snapshot_id = sid1, query = [q1, q2], processed = False\<rparr>,
                \<lparr>snapshot_id = sid3, query = [q5], processed = False\<rparr>]\<rparr>"
      using second_batch_refused[OF h(4-10), of st] h(1,2) by simp_all
    have "map length (chunks b queries) = [2, 2, 1]"
      using h(1,2) by (simp add: chunks_five)
    moreover have "\<forall>sid batch. snapshot_query_map (snd ?p) sid = Some batch
                     \<longrightarrow> q3 \<notin> set batch \<and> q4 \<notin> set batch"
      using h(1,3) unfolding eq by (auto split: if_splits)
    ultimately show ?thesis
      unfolding eq by simp
  qed
  have pq: "process_queries e st queries b = Inr (snd ?p, fst ?p)"
    using assms by (rule process_queries_fold)
  have len: "total_batches (snd ?p) = (length queries + b - 1) div b"
    using c(1) length_chunks[OF assms, of queries] by simp
  have sum: "successful_snapshots (snd ?p) + failed_batches (snd ?p) = total_batches (snd ?p)"
    using c(1,2) by simp
  show ?thesis
    apply (rule exI[of _ "snd ?p"])
    apply (rule exI[of _ "fst ?p"])
    apply (intro conjI)
            apply (rule pq)
           apply simp
          apply (rule concat_chunks[OF assms])
         apply (rule map_length_chunks[OF assms])
        apply (rule c(1))
       apply (rule len)
      apply (rule sum)
     apply (rule c(3))
    apply (intro impI, elim conjE, rule scen; assumption)
    done
qed

text \<open>The scenario with the queries \<open>a\<close> to \<open>e\<close> and a service that refuses \<open>[c, d]\<close>.\<close>

theorem batch_submission_witness:
  "process_queries (refusing [[''c'', ''d'']]) empty_store [''a'', ''b'', ''c'', ''d'', ''e''] 2 =
     Inr (\<lparr>total_queries = 5, successful_snapshots = 2, failed_batches = 1, total_batches = 3,
           submitted_ids = [''snap-a'', ''snap-e''],
           snapshot_query_map = [''snap-a'' \<mapsto> [''a'', ''b''], ''snap-e'' \<mapsto> [''e'']]\<rparr>,
          \<lparr>snapshot_table =
             [\<lparr>snapshot_id = ''snap-a'', query = [''a'', ''b''], processed = False\<rparr>,
              \<lparr>snapshot_id = ''snap-e'', query = [''e''], processed = False\<rparr>],
           response_table = [], email_table = []\<rparr>)
   \<and> map length (chunks 2 [''a'', ''b'', ''c'', ''d'', ''e'']) = [2, 2, 1]"
proof -
  let ?e = "refusing [[''c'', ''d'']]"
  have h: "send_request ?e [''a'', ''b''] = Some [(''snapshot_id'', ''snap-a'')]"
      "map_of [(''snapshot_id'', ''snap-a'')] ''snapshot_id'' = Some ''snap-a''"
      "db_fault ?e (InsertSnapshot ''snap-a'') = None"
      "send_request ?e [''c'', ''d''] = None"
      "send_request ?e [''e''] = Some [(''snapshot_id'', ''snap-e'')]"
      "map_of [(''snapshot_id'', ''snap-e'')] ''snapshot_id'' = Some ''snap-e''"
      "db_fault ?e (InsertSnapshot ''snap-e'') = None"
    by (simp_all add: refusing_def send_request_def)
  have d: "distinct [''a'', ''b'', ''c'', ''d'', ''e'']" by simp
  have v: "process_queries ?e empty_store [''a'', ''b'', ''c'', ''d'', ''e''] 2 =
     Inr (\<lparr>total_queries = 5, successful_snapshots = 2, failed_batches = 1, total_batches = 3,
           submitted_ids = [''snap-a'', ''snap-e''],
           snapshot_query_map = [''snap-a'' \<mapsto> [''a'', ''b''], ''snap-e'' \<mapsto> [''e'']]\<rparr>,
          \<lparr>snapshot_table =
             [\<lparr>snapshot_id = ''snap-a'', query = [''a'', ''b''], processed = False\<rparr>,
              \<lparr>snapshot_id = ''snap-e'', query = [''e''], processed = False\<rparr>],
           response_table = [], email_table = []\<rparr>)"
    using second_batch_refused[OF h, of empty_store] by (simp add: empty_store_def)
  have "0 < (2::nat)" by simp
  from batch_submission[OF this, of ?e empty_store "[''a'', ''b'', ''c'', ''d'', ''e'']"
      "''a''" "''b''" "''c''" "''d''" "''e''" "[(''snapshot_id'', ''snap-a'')]" "''snap-a''"
      "[(''snapshot_id'', ''snap-e'')]" "''snap-e''"] h d v
  show ?thesis by auto
qed

section \<open>Retrieval passes\<close>

declare stage2_snap.simps [simp del]
declare app_stage2_snap.simps [simp del]


text \<open>
  The pass of \<^verbatim>\<open>app.py\<close> changes the snapshot table only for a valid payload whose response
  was persisted or rejected as a duplicate. The pass of \<^verbatim>\<open>worker.py\<close> persists an
  invalid-error payload and marks its snapshot whenever the payload is not \<^verbatim>\<open>None\<close>.
\<close>

lemma mark_as_processed_unchanged_on_fault:
  "snapshot_table (snd (mark_as_processed e st sid)) \<noteq> snapshot_table st \<Longrightarrow>
     db_fault e (UpdateProcessed sid) = None"
  by (auto simp: mark_as_processed_def split: option.splits)

lemma save_response_snapshots: "snapshot_table (snd (save_response e st sid d)) = snapshot_table st"
  by (auto simp: save_response_def split: option.splits)

lemma app_marks_only_valid:
  assumes "snapshot_table (fst (app_stage2_snap e snap (st, c))) \<noteq> snapshot_table st"
  shows "\<exists>data is_running reason.
           get_snapshot_data e (snapshot_id snap) = Inr (data, is_running, True, reason)
           \<and> classification_of (data, is_running, True, reason) = Valid
           \<and> (fst (fst (save_response e st (snapshot_id snap) data))
                \<or> snd (fst (save_response e st (snapshot_id snap) data)) = ''duplicate'')"
proof (cases "get_snapshot_data e (snapshot_id snap)")
  case (Inl ex)
  then show ?thesis using assms by (simp add: app_stage2_snap.simps)
next
  case (Inr r)
  obtain data is_running is_valid reason where r: "r = (data, is_running, is_valid, reason)"
    by (cases r)
  have v: "is_valid"
    using assms Inr r by (auto simp: app_stage2_snap.simps split: if_splits)
  have "fst (fst (save_response e st (snapshot_id snap) data))
          \<or> snd (fst (save_response e st (snapshot_id snap) data)) = ''duplicate''"
    using assms Inr r v
    by (auto simp: app_stage2_snap.simps save_response_snapshots case_prod_unfold Let_def
        split: if_splits)
  then show ?thesis using Inr r v by (simp add: classification_of_def)
qed

lemma worker_marks_invalid_error:
  assumes "snapshot_id snap \<noteq> []"
    and "get_snapshot_data e (snapshot_id snap) = Inr (data, False, False, reason)"
    and "data \<noteq> JNull"
    and "db_fault e (InsertResponse (snapshot_id snap)) = None"
    and "snapshot_id snap \<notin> r_snapshot_id ` set (response_table st)"
  shows "classification_of (data, False, False, reason) = InvalidError
       \<and> fst (stage2_snap e snap (st, c))
           = snd (mark_as_processed e
                   (st\<lparr>response_table := response_table st @
                        [\<lparr>r_snapshot_id = snapshot_id snap, response = data,
                          is_email_extracted = False\<rparr>]\<rparr>)
                   (snapshot_id snap))"
  using assms
  by (simp add: stage2_snap.simps save_response_def classification_of_def)

text \<open>
  C1. A snapshot is to be marked processed only when its response was persisted or rejected as a
  duplicate, and never while its payload is classified invalid-error. On a small error envelope
  the pass of \<^verbatim>\<open>worker.py\<close> does otherwise: the payload is classified invalid-error, and the
  pass persists it and marks the snapshot processed, because it only skips a payload that is
  both invalid and running. The pass of \<^verbatim>\<open>app.py\<close>, which skips every invalid payload, leaves
  the same store untouched and counts one invalid response.
\<close>

theorem worker_persists_invalid_error:
  "classification_of (projr (get_snapshot_data (answering (JObj [(''error'', JStr ''Snapshot is empty'')])) ''s1''))
     = InvalidError
   \<and> process_stage2 (answering (JObj [(''error'', JStr ''Snapshot is empty'')])) pending_store =
       (\<lparr>s2_total = 1, s2_successful = 1, s2_failed = 0, s2_skipped = 0\<rparr>,
        \<lparr>snapshot_table = [\<lparr>snapshot_id = ''s1'', query = [''pizza near me''], processed = True\<rparr>],
         response_table = [\<lparr>r_snapshot_id = ''s1'', response = JObj [(''error'', JStr ''Snapshot is empty'')],
                            is_email_extracted = False\<rparr>],
         email_table = []\<rparr>)
   \<and> process_unprocessed_snapshots (answering (JObj [(''error'', JStr ''Snapshot is empty'')])) ''key''
         pending_store =
       (app_stage2_zero\<lparr>a_total := 1, a_invalid_responses := 1\<rparr>, pending_store)"
  by code_simp











section \<open>The extraction pass\<close>

declare stage3_row.simps [simp del]

lemma save_emails_tables:
  "response_table (fst (save_emails e emails p)) = response_table (fst p)
   \<and> snapshot_table (fst (save_emails e emails p)) = snapshot_table (fst p)"
proof (induction emails arbitrary: p)
  case Nil
  show ?case by (cases p) simp
next
  case (Cons email rest)
  obtain st c where p: "p = (st, c)" by (cases p)
  show ?case
    unfolding p
    by (simp add: Let_def Cons save_email_def split: prod.splits option.splits if_splits)
qed

lemma stage3_row_table:
  "response_table (fst (stage3_row e row (st, c))) =
     (if markable e row then mark_rows {r_snapshot_id row} (response_table st) else response_table st)"
proof -
  have t: "response_table st1 = response_table st"
    if "save_emails e emails (st, c) = (st1, c1)" for emails st1 c1
    using save_emails_tables[of e emails "(st, c)"] that by simp
  show ?thesis
    by (auto simp: stage3_row.simps markable_def mark_rows_def extract_emails_from_json_def dumps_def
        mark_email_extracted_def Let_def split: prod.splits option.splits sum.splits dest: t)
qed


lemma mark_rows_empty: "mark_rows {} tbl = tbl"
  by (simp add: mark_rows_def)

lemma mark_rows_compose: "mark_rows B (mark_rows A tbl) = mark_rows (A \<union> B) tbl"
  by (auto simp: mark_rows_def)

lemma marked_ids_Cons:
  "marked_ids e (row # rest) =
     (if markable e row then insert (r_snapshot_id row) (marked_ids e rest) else marked_ids e rest)"
  by (simp add: marked_ids_def)

lemma stage3_rows_table:
  "response_table (fst (stage3_rows e rows p)) = mark_rows (marked_ids e rows) (response_table (fst p))"
proof (induction rows arbitrary: p)
  case Nil
  show ?case by (simp add: marked_ids_def mark_rows_empty)
next
  case (Cons row rest)
  obtain st c where p: "p = (st, c)" by (cases p)
  show ?case
  proof (cases "markable e row")
    case True
    then show ?thesis
      unfolding p by (simp add: Cons stage3_row_table mark_rows_compose marked_ids_Cons)
  next
    case False
    then show ?thesis
      unfolding p by (simp add: Cons stage3_row_table marked_ids_Cons)
  qed
qed

lemma mark_rows_ids: "map r_snapshot_id (mark_rows S tbl) = map r_snapshot_id tbl"
  by (simp add: mark_rows_def comp_def if_distrib cong: if_cong)

lemma markable_marked: "markable e (r\<lparr>is_email_extracted := b\<rparr>) = markable e r"
  by (simp add: markable_def)

lemma filter_markable_mark_rows:
  "filter (markable e) (mark_rows S tbl) = mark_rows S (filter (markable e) tbl)"
  by (induction tbl) (auto simp: mark_rows_def markable_marked)

lemma marked_ids_mark_rows: "marked_ids e (mark_rows S tbl) = marked_ids e tbl"
proof -
  have "marked_ids e (mark_rows S tbl)
          = set (map r_snapshot_id (mark_rows S (filter (markable e) tbl)))"
    by (simp add: marked_ids_def filter_markable_mark_rows)
  also have "\<dots> = set (map r_snapshot_id (filter (markable e) tbl))"
    by (simp only: mark_rows_ids)
  finally show ?thesis by (simp add: marked_ids_def)
qed

lemma unextracted_mark_rows:
  "filter (\<lambda>r. \<not> is_email_extracted r) (mark_rows S tbl)
     = filter (\<lambda>r. \<not> is_email_extracted r \<and> r_snapshot_id r \<notin> S) tbl"
  by (induction tbl) (auto simp: mark_rows_def)

lemma length_filter_mono:
  "(\<And>x. x \<in> set xs \<Longrightarrow> P x \<Longrightarrow> Q x) \<Longrightarrow> length (filter P xs) \<le> length (filter Q xs)"
  by (induction xs) auto

lemma length_filter_strict:
  assumes "\<And>x. x \<in> set xs \<Longrightarrow> P x \<Longrightarrow> Q x" and "x \<in> set xs" and "Q x" and "\<not> P x"
  shows "length (filter P xs) < length (filter Q xs)"
  using assms
proof (induction xs)
  case Nil
  then show ?case by simp
next
  case (Cons a xs)
  have le: "length (filter P xs) \<le> length (filter Q xs)"
    using Cons.prems(1) by (intro length_filter_mono) auto
  show ?case
  proof (cases "x = a")
    case True
    then show ?thesis using Cons.prems le by auto
  next
    case False
    then have "length (filter P xs) < length (filter Q xs)"
      using Cons by auto
    then show ?thesis using Cons.prems(1)[of a] by auto
  qed
qed

lemma page_subset: "set (get_unextracted_responses e st limit offset) \<subseteq> set (unextracted st)"
proof (cases "db_fault e SelectUnextracted")
  case None
  have "set (take limit (drop offset (unextracted st))) \<subseteq> set (drop offset (unextracted st))"
    by (rule set_take_subset)
  also have "\<dots> \<subseteq> set (unextracted st)" by (rule set_drop_subset)
  finally show ?thesis using None by (simp add: get_unextracted_responses_def unextracted_def)
next
  case (Some msg)
  then show ?thesis by (simp add: get_unextracted_responses_def)
qed

lemma page_length: "length (get_unextracted_responses e st limit offset) \<le> limit"
  by (simp add: get_unextracted_responses_def split: option.splits)

lemma unextracted_after_rows:
  "unextracted (fst (stage3_rows e rows (st, c)))
     = filter (\<lambda>r. \<not> is_email_extracted r \<and> r_snapshot_id r \<notin> marked_ids e rows) (response_table st)"
  by (simp add: unextracted_def stage3_rows_table unextracted_mark_rows)

lemma page_step_decreases:
  assumes "all_markable e st" and "get_unextracted_responses e st limit 0 \<noteq> []"
  shows "length (unextracted (fst (stage3_rows e (get_unextracted_responses e st limit 0) (st, c))))
           < length (unextracted st)"
proof -
  let ?page = "get_unextracted_responses e st limit 0"
  obtain r where r: "r \<in> set ?page" using assms(2) by (cases ?page) auto
  then have ru: "r \<in> set (unextracted st)" using page_subset by blast
  then have "markable e r" using assms(1) by (simp add: all_markable_def)
  with r have rid: "r_snapshot_id r \<in> marked_ids e ?page" by (auto simp: marked_ids_def)
  have "length (filter (\<lambda>r. \<not> is_email_extracted r \<and> r_snapshot_id r \<notin> marked_ids e ?page)
                  (response_table st))
          < length (filter (\<lambda>r. \<not> is_email_extracted r) (response_table st))"
    using ru rid by (intro length_filter_strict[of _ _ _ r]) (auto simp: unextracted_def)
  then show ?thesis unfolding unextracted_after_rows by (simp add: unextracted_def)
qed

lemma page_step_all_markable:
  assumes "all_markable e st"
  shows "all_markable e (fst (stage3_rows e rows (st, c)))"
  using assms unfolding all_markable_def unextracted_after_rows by (auto simp: unextracted_def)

lemma stage3_while_returns:
  "all_markable e st \<Longrightarrow> \<exists>y. stage3_while e batch_size (st, c) = Some y"
proof (induction "length (unextracted st)" arbitrary: st c rule: less_induct)
  case less
  let ?page = "get_unextracted_responses e st batch_size 0"
  show ?case
  proof (cases "?page = []")
    case True
    then show ?thesis by (subst stage3_while.simps) simp
  next
    case False
    obtain st' c' where n: "stage3_rows e ?page (st, c) = (st', c')"
      by (cases "stage3_rows e ?page (st, c)")
    have "length (unextracted st') < length (unextracted st)"
      using page_step_decreases[OF less.prems False, of c] n by simp
    moreover have "all_markable e st'"
      using page_step_all_markable[OF less.prems, of ?page c] n by simp
    ultimately obtain y where "stage3_while e batch_size (st', c') = Some y"
      using less.hyps by blast
    then show ?thesis using False n by (subst stage3_while.simps) simp
  qed
qed

lemma stage3_while_drains:
  assumes "stage3_while e batch_size p = Some y"
  shows "get_unextracted_responses e (fst y) batch_size 0 = []"
proof (rule stage3_while.raw_induct[where P = "\<lambda>e batch_size p y.
          get_unextracted_responses e (fst y) batch_size 0 = []", OF _ assms])
  fix f e batch_size p y
  assume ih: "\<And>e batch_size p y. f e batch_size p = Some y
                \<Longrightarrow> get_unextracted_responses e (fst y) batch_size 0 = []"
    and step: "(let rows = get_unextracted_responses e (fst p) batch_size 0
                in if rows = [] then Some p else f e batch_size (stage3_rows e rows p)) = Some y"
  show "get_unextracted_responses e (fst y) batch_size 0 = []"
  proof (cases "get_unextracted_responses e (fst p) batch_size 0 = []")
    case True
    then show ?thesis using step by simp
  next
    case False
    then show ?thesis using step ih by (simp add: Let_def)
  qed
qed

lemma stuck_page: "stuck e batch_size st \<Longrightarrow> get_unextracted_responses e st batch_size 0 \<noteq> []"
  by (auto simp: stuck_def get_unextracted_responses_def unextracted_def filter_empty_conv)

lemma marked_ids_mono: "set rows \<subseteq> set tbl \<Longrightarrow> marked_ids e rows \<subseteq> marked_ids e tbl"
  by (auto simp: marked_ids_def)

lemma stuck_step:
  assumes "stuck e batch_size st"
  shows "stuck e batch_size (fst (stage3_rows e (get_unextracted_responses e st batch_size 0) (st, c)))"
proof -
  let ?page = "get_unextracted_responses e st batch_size 0"
  obtain r where r: "r \<in> set (unextracted st)" "r_snapshot_id r \<notin> marked_ids e (response_table st)"
    using assms by (auto simp: stuck_def)
  have "set ?page \<subseteq> set (response_table st)"
    using page_subset[of e st batch_size 0] by (auto simp: unextracted_def)
  then have "marked_ids e ?page \<subseteq> marked_ids e (response_table st)" by (rule marked_ids_mono)
  with r have "r \<in> set (unextracted (fst (stage3_rows e ?page (st, c))))"
    unfolding unextracted_after_rows by (auto simp: unextracted_def)
  moreover have "marked_ids e (response_table (fst (stage3_rows e ?page (st, c))))
                   = marked_ids e (response_table st)"
    by (simp add: stage3_rows_table marked_ids_mark_rows)
  ultimately show ?thesis using assms r(2) unfolding stuck_def by auto
qed

lemma stuck_not_Some:
  assumes "stage3_while e batch_size p = Some y"
  shows "\<not> stuck e batch_size (fst p)"
proof (rule stage3_while.raw_induct[where P = "\<lambda>e batch_size p y. \<not> stuck e batch_size (fst p)",
      OF _ assms])
  fix f e batch_size p y
  assume ih: "\<And>e batch_size p y. f e batch_size p = Some y \<Longrightarrow> \<not> stuck e batch_size (fst p)"
    and step: "(let rows = get_unextracted_responses e (fst p) batch_size 0
                in if rows = [] then Some p else f e batch_size (stage3_rows e rows p)) = Some y"
  show "\<not> stuck e batch_size (fst p)"
  proof
    assume s: "stuck e batch_size (fst p)"
    obtain st c where p: "p = (st, c)" by (cases p)
    let ?page = "get_unextracted_responses e st batch_size 0"
    have "?page \<noteq> []" using s p by (simp add: stuck_page)
    then have "f e batch_size (stage3_rows e ?page (st, c)) = Some y"
      using step p by (simp add: Let_def)
    then have "\<not> stuck e batch_size (fst (stage3_rows e ?page (st, c)))" by (rule ih)
    then show False using stuck_step[of e batch_size st c] s p by simp
  qed
qed

lemma stuck_never_returns: "stuck e batch_size st \<Longrightarrow> stage3_while e batch_size (st, c) = None"
  using stuck_not_Some[of e batch_size "(st, c)"] by (cases "stage3_while e batch_size (st, c)") auto

section \<open>Termination of the extraction pass\<close>

lemma process_stage3_returns:
  assumes "all_markable e st"
  shows "\<exists>c' st'. process_stage3 e batch_size st = Some (c', st')
           \<and> get_unextracted_responses e st' batch_size 0 = []"
proof -
  obtain y where y: "stage3_while e batch_size (st, stage3_zero) = Some y"
    using stage3_while_returns[OF assms] by blast
  obtain st' c' where p: "y = (st', c')" by (cases y)
  have "get_unextracted_responses e st' batch_size 0 = []"
    using stage3_while_drains[OF y] p by simp
  moreover have "process_stage3 e batch_size st = Some (c', st')"
    using y p by (simp add: process_stage3_def stage3_zero_def)
  ultimately show ?thesis by blast
qed

lemma process_stage3_stuck: "stuck e batch_size st \<Longrightarrow> process_stage3 e batch_size st = None"
  using stuck_never_returns[of e batch_size st stage3_zero]
  by (simp add: process_stage3_def stage3_zero_def)

lemma failed_mark_is_stuck:
  assumes "0 < batch_size"
    and "r \<in> set (get_unextracted_responses e st batch_size 0)"
    and "db_fault e (UpdateExtracted (r_snapshot_id r)) \<noteq> None"
  shows "stuck e batch_size st"
proof -
  have f: "db_fault e SelectUnextracted = None"
    using assms(2) by (auto simp: get_unextracted_responses_def split: option.splits)
  have u: "r \<in> set (unextracted st)" using assms(2) page_subset by blast
  have "r_snapshot_id r \<notin> marked_ids e (response_table st)"
    using assms(3) by (auto simp: marked_ids_def markable_def)
  with f u assms(1) show ?thesis unfolding stuck_def by blast
qed

text \<open>
  C9, as amended. When every row still to be extracted gets marked (it has an identifier and a
  payload, the payload serialises and the update of its flag succeeds), the extraction pass
  returns, with nothing left to fetch, and every page iteration on a non-empty page strictly
  decreases the number of unextracted rows. When pages can be fetched and the marking of some
  fetched row fails persistently, and in general when the pass is stuck on a row that is never
  marked, the loop fetches from offset zero forever and the pass does not return.
\<close>

theorem extraction_pass_termination:
  "(all_markable e st \<longrightarrow>
      (\<exists>c' st'. process_stage3 e batch_size st = Some (c', st')
         \<and> get_unextracted_responses e st' batch_size 0 = [])
      \<and> (get_unextracted_responses e st batch_size 0 \<noteq> [] \<longrightarrow>
           length (unextracted (fst (stage3_rows e (get_unextracted_responses e st batch_size 0) (st, c))))
             < length (unextracted st)))
   \<and> (0 < batch_size \<and> r \<in> set (get_unextracted_responses e st batch_size 0)
        \<and> db_fault e (UpdateExtracted (r_snapshot_id r)) \<noteq> None
      \<longrightarrow> process_stage3 e batch_size st = None)
   \<and> (stuck e batch_size st \<longrightarrow> process_stage3 e batch_size st = None)"
  using process_stage3_returns[of e st batch_size] page_step_decreases[of e st batch_size c]
    failed_mark_is_stuck[of batch_size r e st] process_stage3_stuck[of e batch_size st]
  by blast

text \<open>
  C9 as stated fails: in a store without any fault, where every marking that is attempted
  succeeds, a row without a payload is skipped before the marking, stays unextracted, and the
  pass does not return.
\<close>

theorem null_payload_row_loops_forever:
  "(\<forall>op. db_fault (answering sample_payload) op = None)
   \<and> unextracted (answered_store JNull)
       = [\<lparr>r_snapshot_id = ''s1'', response = JNull, is_email_extracted = False\<rparr>]
   \<and> process_stage3 (answering sample_payload) 20 (answered_store JNull) = None"
proof -
  have "stuck (answering sample_payload) 20 (answered_store JNull)"
    by (simp add: stuck_def answering_def answered_store_def pending_store_def unextracted_def
        marked_ids_def markable_def)
  then show ?thesis
    using process_stage3_stuck
    by (simp add: answering_def answered_store_def pending_store_def unextracted_def)
qed

text \<open>One row with a payload: the pass returns after one page when updates succeed, and never
  when they are refused.\<close>

theorem extraction_pass_termination_witness:
  "process_stage3 (answering sample_payload) 20 (answered_store sample_payload) =
     Some (\<lparr>s3_total = 1, s3_successful = 1, s3_failed = 0, s3_emails = 1, s3_duplicate_emails = 0\<rparr>,
           \<lparr>snapshot_table = [\<lparr>snapshot_id = ''s1'', query = [''pizza near me''], processed = False\<rparr>],
            response_table = [\<lparr>r_snapshot_id = ''s1'', response = sample_payload,
                               is_email_extracted = True\<rparr>],
            email_table = [''jane@example.com'']\<rparr>)
   \<and> process_stage3 refusing_updates 20 (answered_store sample_payload) = None"
proof -
  let ?st = "answered_store sample_payload"
  let ?row = "\<lparr>r_snapshot_id = ''s1'', response = sample_payload, is_email_extracted = False\<rparr>"
  have v: "process_stage3 (answering sample_payload) 20 ?st =
     Some (\<lparr>s3_total = 1, s3_successful = 1, s3_failed = 0, s3_emails = 1, s3_duplicate_emails = 0\<rparr>,
           \<lparr>snapshot_table = [\<lparr>snapshot_id = ''s1'', query = [''pizza near me''], processed = False\<rparr>],
            response_table = [\<lparr>r_snapshot_id = ''s1'', response = sample_payload,
                               is_email_extracted = True\<rparr>],
            email_table = [''jane@example.com'']\<rparr>)"
  proof -
    let ?e = "answering sample_payload"
    let ?st1 = "\<lparr>snapshot_table = [\<lparr>snapshot_id = ''s1'', query = [''pizza near me''], processed = False\<rparr>],
            response_table = [\<lparr>r_snapshot_id = ''s1'', response = sample_payload,
                               is_email_extracted = True\<rparr>],
            email_table = [''jane@example.com'']\<rparr>"
    let ?c1 = "\<lparr>s3_total = 1, s3_successful = 1, s3_failed = 0, s3_emails = 1, s3_duplicate_emails = 0\<rparr>"
    have p1: "get_unextracted_responses ?e ?st 20 0 = [?row]"
      by (simp add: get_unextracted_responses_def answering_def answered_store_def pending_store_def)
    have r1: "stage3_rows ?e [?row] (?st, stage3_zero) = (?st1, ?c1)"
      by code_simp
    have p2: "get_unextracted_responses ?e ?st1 20 0 = []"
      by (simp add: get_unextracted_responses_def answering_def)
    have "stage3_while ?e 20 (?st, stage3_zero) = stage3_while ?e 20 (?st1, ?c1)"
      by (subst stage3_while.simps) (simp add: p1 r1 del: stage3_rows.simps)
    also have "\<dots> = Some (?st1, ?c1)"
      by (subst stage3_while.simps) (simp add: p2)
    finally show ?thesis by (simp add: process_stage3_def stage3_zero_def)
  qed
  have m: "all_markable (answering sample_payload) ?st"
    by (simp add: all_markable_def unextracted_def answered_store_def pending_store_def markable_def
        answering_def sample_payload_def)
  have h: "0 < (20::nat)" "?row \<in> set (get_unextracted_responses refusing_updates ?st 20 0)"
      "db_fault refusing_updates (UpdateExtracted (r_snapshot_id ?row)) \<noteq> None"
    by (simp_all add: get_unextracted_responses_def refusing_updates_def answering_def
        answered_store_def pending_store_def)
  show ?thesis
    using extraction_pass_termination[of "answering sample_payload" ?st 20 stage3_zero ?row] m v
      extraction_pass_termination[of refusing_updates ?st 20 stage3_zero ?row] h
    by simp
qed

section \<open>Isolation of item failures\<close>

text \<open>
  What holds of the claim: an exception in one item costs that item alone. The retrieval pass
  counts every snapshot exactly once, and every page of the extraction pass counts every row
  exactly once.
\<close>

lemma stage2_snap_raise:
  "snapshot_id snap \<noteq> [] \<Longrightarrow> get_snapshot_data e (snapshot_id snap) = Inl ex \<Longrightarrow>
     stage2_snap e snap (st, c) = (st, c\<lparr>s2_failed := s2_failed c + 1\<rparr>)"
  by (simp add: stage2_snap.simps)

lemma stage2_snap_counts:
  "s2_successful (snd (stage2_snap e snap p)) + s2_failed (snd (stage2_snap e snap p))
     + s2_skipped (snd (stage2_snap e snap p))
   = s2_successful (snd p) + s2_failed (snd p) + s2_skipped (snd p) + 1
   \<and> s2_total (snd (stage2_snap e snap p)) = s2_total (snd p)"
  by (cases p) (auto simp: stage2_snap.simps Let_def split: sum.splits prod.splits)

lemma stage2_loop_counts:
  "s2_successful (snd (stage2_loop e snaps p)) + s2_failed (snd (stage2_loop e snaps p))
     + s2_skipped (snd (stage2_loop e snaps p))
   = s2_successful (snd p) + s2_failed (snd p) + s2_skipped (snd p) + length snaps
   \<and> s2_total (snd (stage2_loop e snaps p)) = s2_total (snd p)"
proof (induction snaps arbitrary: p)
  case Nil
  show ?case by simp
next
  case (Cons snap rest)
  show ?case using Cons[of "stage2_snap e snap p"] stage2_snap_counts[of e snap p] by simp
qed

lemma process_stage2_accounts:
  "s2_successful (fst (process_stage2 e st)) + s2_failed (fst (process_stage2 e st))
     + s2_skipped (fst (process_stage2 e st)) = s2_total (fst (process_stage2 e st))
   \<and> s2_total (fst (process_stage2 e st)) = length (get_unprocessed_snapshots e st)"
proof (cases "get_unprocessed_snapshots e st = []")
  case True
  then show ?thesis by (simp add: process_stage2_def)
next
  case False
  let ?p = "stage2_loop e (get_unprocessed_snapshots e st)
      (st, \<lparr>s2_total = length (get_unprocessed_snapshots e st), s2_successful = 0, s2_failed = 0,
             s2_skipped = 0\<rparr>)"
  have "fst (process_stage2 e st) = snd ?p"
    using False by (simp add: process_stage2_def Let_def split: prod.splits)
  then show ?thesis
    using stage2_loop_counts[of e "get_unprocessed_snapshots e st"
      "(st, \<lparr>s2_total = length (get_unprocessed_snapshots e st), s2_successful = 0, s2_failed = 0,
             s2_skipped = 0\<rparr>)"]
    by simp
qed

lemma stage3_row_raise:
  "r_snapshot_id row \<noteq> [] \<Longrightarrow> response row \<noteq> JNull \<Longrightarrow> dumps_raises e (response row) \<Longrightarrow>
     stage3_row e row (st, c) = (st, c\<lparr>s3_failed := s3_failed c + 1, s3_total := s3_total c + 1\<rparr>)"
  by (simp add: stage3_row.simps extract_emails_from_json_def dumps_def)

lemma save_emails_counts:
  "s3_total (snd (save_emails e emails p)) = s3_total (snd p)
   \<and> s3_successful (snd (save_emails e emails p)) = s3_successful (snd p)
   \<and> s3_failed (snd (save_emails e emails p)) = s3_failed (snd p)"
proof (induction emails arbitrary: p)
  case Nil
  show ?case by (cases p) simp
next
  case (Cons email rest)
  obtain st c where p: "p = (st, c)" by (cases p)
  show ?case
    unfolding p by (simp add: Let_def Cons split: prod.splits)
qed

lemma stage3_row_counts:
  "s3_total (snd (stage3_row e row p)) = s3_total (snd p) + 1
   \<and> s3_successful (snd (stage3_row e row p)) + s3_failed (snd (stage3_row e row p))
       = s3_successful (snd p) + s3_failed (snd p) + 1"
proof -
  obtain st c where p: "p = (st, c)" by (cases p)
  have t: "s3_total c1 = s3_total c \<and> s3_successful c1 = s3_successful c \<and> s3_failed c1 = s3_failed c"
    if "save_emails e emails (st, c) = (st1, c1)" for emails st1 c1
    using save_emails_counts[of e emails "(st, c)"] that by simp
  show ?thesis
    unfolding p
    by (auto simp: stage3_row.simps Let_def split: sum.splits prod.splits dest: t)
qed

lemma stage3_rows_counts:
  "s3_total (snd (stage3_rows e rows p)) = s3_total (snd p) + length rows
   \<and> s3_successful (snd (stage3_rows e rows p)) + s3_failed (snd (stage3_rows e rows p))
       = s3_successful (snd p) + s3_failed (snd p) + length rows"
proof (induction rows arbitrary: p)
  case Nil
  show ?case by simp
next
  case (Cons row rest)
  show ?case using Cons[of "stage3_row e row p"] stage3_row_counts[of e row p] by simp
qed

text \<open>
  C8. A pass is to return its statistics whatever happens to single items. The extraction pass
  of \<^verbatim>\<open>worker.py\<close> does not: a row whose item raises, or whose flag cannot be updated, is
  counted as a failure in its page, stays unextracted, and is fetched again by the unbounded
  \<^verbatim>\<open>while True\<close> loop; the pass never returns.
\<close>

theorem extraction_pass_never_returns:
  "stage3_rows raising_dumps (get_unextracted_responses raising_dumps (answered_store sample_payload) 20 0)
       (answered_store sample_payload, stage3_zero)
     = (answered_store sample_payload, stage3_zero\<lparr>s3_failed := 1, s3_total := 1\<rparr>)
   \<and> process_stage3 raising_dumps 20 (answered_store sample_payload) = None
   \<and> stage3_rows refusing_updates (get_unextracted_responses refusing_updates (answered_store sample_payload) 20 0)
       (answered_store sample_payload, stage3_zero)
     = (answered_store sample_payload\<lparr>email_table := [''jane@example.com'']\<rparr>,
        stage3_zero\<lparr>s3_failed := 1, s3_total := 1, s3_emails := 1\<rparr>)
   \<and> process_stage3 refusing_updates 20 (answered_store sample_payload) = None"
proof -
  have a: "stuck raising_dumps 20 (answered_store sample_payload)"
    by (simp add: stuck_def raising_dumps_def answering_def answered_store_def pending_store_def
        unextracted_def marked_ids_def markable_def)
  have b: "stuck refusing_updates 20 (answered_store sample_payload)"
    by (simp add: stuck_def refusing_updates_def answering_def answered_store_def pending_store_def
        unextracted_def marked_ids_def markable_def)
  have c: "stage3_rows raising_dumps (get_unextracted_responses raising_dumps (answered_store sample_payload) 20 0)
       (answered_store sample_payload, stage3_zero)
     = (answered_store sample_payload, stage3_zero\<lparr>s3_failed := 1, s3_total := 1\<rparr>)"
    by code_simp
  have d: "stage3_rows refusing_updates (get_unextracted_responses refusing_updates (answered_store sample_payload) 20 0)
       (answered_store sample_payload, stage3_zero)
     = (answered_store sample_payload\<lparr>email_table := [''jane@example.com'']\<rparr>,
        stage3_zero\<lparr>s3_failed := 1, s3_total := 1, s3_emails := 1\<rparr>)"
    by code_simp
  show ?thesis
    using process_stage3_stuck[OF a] process_stage3_stuck[OF b] c d by blast
qed

section \<open>At most one extraction per response\<close>

lemma settled_mark_rows:
  assumes "settled sid tbl"
  shows "settled sid (mark_rows S tbl)"
proof -
  have "set (map r_snapshot_id (mark_rows S tbl)) = set (map r_snapshot_id tbl)"
    by (simp only: mark_rows_ids)
  then have "r_snapshot_id ` set (mark_rows S tbl) = r_snapshot_id ` set tbl" by simp
  moreover have "\<forall>r\<in>set (mark_rows S tbl). r_snapshot_id r = sid \<longrightarrow> is_email_extracted r"
    using assms by (auto simp: settled_def mark_rows_def)
  ultimately show ?thesis using assms by (simp add: settled_def)
qed

lemma save_response_table:
  "response_table (snd (save_response e st sid d)) =
     (if db_fault e (InsertResponse sid) = None \<and> sid \<notin> r_snapshot_id ` set (response_table st)
      then response_table st @ [\<lparr>r_snapshot_id = sid, response = d, is_email_extracted = False\<rparr>]
      else response_table st)"
  by (auto simp: save_response_def split: option.splits)

lemma mark_as_processed_table: "response_table (snd (mark_as_processed e st sid)) = response_table st"
  by (simp add: mark_as_processed_def split: option.splits)

lemma settled_save_response:
  "settled sid (response_table st) \<Longrightarrow> settled sid (response_table (snd (save_response e st sid' d)))"
  by (auto simp: save_response_table settled_def)

lemma settled_stage3_row:
  "settled sid (response_table st) \<Longrightarrow> settled sid (response_table (fst (stage3_row e row (st, c))))"
  by (simp add: stage3_row_table settled_mark_rows)

lemma settled_stage2_snap:
  assumes "settled sid (response_table st)"
  shows "settled sid (response_table (fst (stage2_snap e snap (st, c))))"
  using assms settled_save_response[OF assms, of e "snapshot_id snap"]
  by (auto simp: stage2_snap.simps mark_as_processed_table Let_def case_prod_unfold
      split: sum.splits)

lemma settled_app_stage2_snap:
  assumes "settled sid (response_table st)"
  shows "settled sid (response_table (fst (app_stage2_snap e snap (st, c))))"
  using assms settled_save_response[OF assms, of e "snapshot_id snap"]
  by (auto simp: app_stage2_snap.simps mark_as_processed_table Let_def case_prod_unfold
      split: sum.splits)

lemma settled_later: "later st st1 \<Longrightarrow> settled sid (response_table st) \<Longrightarrow> settled sid (response_table st1)"
proof (induction rule: later.induct)
  case (later_refl st)
  then show ?case .
next
  case (later_extract st st1 e row c)
  then show ?case by (simp add: settled_stage3_row)
next
  case (later_retrieve st st1 e snap c2)
  then show ?case by (simp add: settled_stage2_snap)
next
  case (later_retrieve_app st st1 e snap c3)
  then show ?case by (simp add: settled_app_stage2_snap)
qed

lemma later_stage3_rows: "later st st1 \<Longrightarrow> later st (fst (stage3_rows e rows (st1, c)))"
proof (induction rows arbitrary: st1 c)
  case Nil
  then show ?case by simp
next
  case (Cons row rest)
  obtain st2 c2 where n: "stage3_row e row (st1, c) = (st2, c2)" by (cases "stage3_row e row (st1, c)")
  have "later st st2" using later_extract[OF Cons.prems, of e row c] n by simp
  then show ?case using Cons.IH[of st2 c2] n by simp
qed

lemma page_unextracted:
  "r \<in> set (get_unextracted_responses e st limit offset) \<Longrightarrow>
     r \<in> set (response_table st) \<and> \<not> is_email_extracted r"
  using page_subset[of e st limit offset] by (auto simp: unextracted_def)

text \<open>
  C4. Once the response of a snapshot is marked extracted it stays so through every later item
  step of any pass, and no page fetched afterwards holds it: a page holds at most \<open>limit\<close>
  rows (20 by default), all of them unextracted, and the loop of the pass fetches each page
  from offset zero and continues on the store its rows leave behind.
\<close>

theorem extracted_rows_are_not_fetched_again:
  assumes "settled sid (response_table st)" and "later st st1"
  shows "sid \<notin> r_snapshot_id ` set (get_unextracted_responses e st1 limit offset)
       \<and> length (get_unextracted_responses e st1 limit offset) \<le> limit
       \<and> (\<forall>r\<in>set (get_unextracted_responses e st1 limit offset). \<not> is_email_extracted r)
       \<and> later st (fst (stage3_rows e (get_unextracted_responses e st1 limit 0) (st1, c)))
       \<and> stage3_while e limit (st1, c) =
           (if get_unextracted_responses e st1 limit 0 = [] then Some (st1, c)
            else stage3_while e limit (stage3_rows e (get_unextracted_responses e st1 limit 0) (st1, c)))"
proof -
  have s: "settled sid (response_table st1)" by (rule settled_later[OF assms(2,1)])
  have "sid \<notin> r_snapshot_id ` set (get_unextracted_responses e st1 limit offset)"
  proof
    assume "sid \<in> r_snapshot_id ` set (get_unextracted_responses e st1 limit offset)"
    then obtain r where "r \<in> set (get_unextracted_responses e st1 limit offset)" "r_snapshot_id r = sid"
      by auto
    then show False using s page_unextracted[of r e st1 limit offset] by (auto simp: settled_def)
  qed
  moreover have "stage3_while e limit (st1, c) =
           (if get_unextracted_responses e st1 limit 0 = [] then Some (st1, c)
            else stage3_while e limit (stage3_rows e (get_unextracted_responses e st1 limit 0) (st1, c)))"
    by (subst stage3_while.simps) (simp add: Let_def)
  ultimately show ?thesis
    using page_length[of e st1 limit offset] page_unextracted[of _ e st1 limit offset]
      later_stage3_rows[OF assms(2)]
    by blast
qed

text \<open>The page of a half-done table leaves the extracted row out, and so does the page
  fetched after the first page was processed.\<close>

theorem extracted_rows_are_not_fetched_again_witness:
  "map r_snapshot_id (get_unextracted_responses (answering sample_payload) half_done_store 20 0)
     = [''s1'', ''s2'']
   \<and> ''s0'' \<notin> r_snapshot_id ` set (get_unextracted_responses (answering sample_payload) half_done_store 20 0)
   \<and> ''s0'' \<notin> r_snapshot_id ` set (get_unextracted_responses (answering sample_payload)
         (fst (stage3_rows (answering sample_payload)
                 (get_unextracted_responses (answering sample_payload) half_done_store 20 0)
                 (half_done_store, stage3_zero))) 20 0)"
proof -
  let ?e = "answering sample_payload"
  have s: "settled ''s0'' (response_table half_done_store)"
    by (simp add: settled_def half_done_store_def)
  have p: "map r_snapshot_id (get_unextracted_responses ?e half_done_store 20 0) = [''s1'', ''s2'']"
    by (simp add: get_unextracted_responses_def answering_def half_done_store_def)
  note t = extracted_rows_are_not_fetched_again[OF s later_refl, of ?e 20 0 stage3_zero]
  have l: "later half_done_store
             (fst (stage3_rows ?e (get_unextracted_responses ?e half_done_store 20 0)
                     (half_done_store, stage3_zero)))"
    using t by blast
  show ?thesis
    using t p extracted_rows_are_not_fetched_again[OF s l, of ?e 20 0 stage3_zero]
    by blast
qed


end
